theory Spec2Isabelle
  imports Main "HOL-Library.Multiset" "HOL-Library.Monad_Syntax"
begin

section \<open>Zero values\<close>

text \<open>
  The Go containers are generic in the element type \<open>T\<close>; \<^verbatim>\<open>var zero T\<close> is the zero
  value of that type. The element type of the model is of class \<open>default\<close> and
  \<^term>\<open>default\<close> stands for the zero value. For \<open>int\<close> it is \<open>0\<close>, as in Go.
\<close>

instantiation int :: default
begin
definition default_int :: int where "default_int = 0"
instance ..
end

section \<open>Deque (deque/deque.go)\<close>

text \<open>
  \<^verbatim>\<open>type Deque[T any] struct { items []T }\<close>. Every method has a pointer receiver and
  mutates \<open>d.items\<close>; the model passes the deque in and returns the updated one. A method
  with the Go result \<open>(T, bool)\<close> returns that pair together with the deque.
\<close>

record 'a Deque =
  ditems :: "'a list"

definition deque_New :: "'a Deque" where
  "deque_New = \<lparr>ditems = []\<rparr>"

definition PushBack :: "'a Deque \<Rightarrow> 'a \<Rightarrow> 'a Deque" where
  "PushBack d item = d\<lparr>ditems := ditems d @ [item]\<rparr>"

definition PopBack :: "'a::default Deque \<Rightarrow> ('a \<times> bool) \<times> 'a Deque" where
  "PopBack d =
     (if length (ditems d) = 0 then ((default, False), d)
      else let last = length (ditems d) - 1;
               item = ditems d ! last
           in ((item, True), d\<lparr>ditems := take last (ditems d)\<rparr>))"

definition PushFront :: "'a Deque \<Rightarrow> 'a \<Rightarrow> 'a Deque" where
  "PushFront d item = d\<lparr>ditems := [item] @ ditems d\<rparr>"

definition PopFront :: "'a::default Deque \<Rightarrow> ('a \<times> bool) \<times> 'a Deque" where
  "PopFront d =
     (if length (ditems d) = 0 then ((default, False), d)
      else let item = ditems d ! 0
           in ((item, True), d\<lparr>ditems := drop 1 (ditems d)\<rparr>))"

definition PeekFront :: "'a::default Deque \<Rightarrow> ('a \<times> bool) \<times> 'a Deque" where
  "PeekFront d =
     (if length (ditems d) = 0 then ((default, False), d)
      else ((ditems d ! 0, True), d))"

definition PeekBack :: "'a::default Deque \<Rightarrow> ('a \<times> bool) \<times> 'a Deque" where
  "PeekBack d =
     (if length (ditems d) = 0 then ((default, False), d)
      else ((ditems d ! (length (ditems d) - 1), True), d))"

definition Push :: "'a Deque \<Rightarrow> 'a \<Rightarrow> 'a Deque" where
  "Push d item = PushBack d item"

definition Pop :: "'a::default Deque \<Rightarrow> ('a \<times> bool) \<times> 'a Deque" where
  "Pop d = PopBack d"

definition Peek :: "'a::default Deque \<Rightarrow> ('a \<times> bool) \<times> 'a Deque" where
  "Peek d = PeekBack d"

definition deque_Len :: "'a Deque \<Rightarrow> nat" where
  "deque_Len d = length (ditems d)"

definition IsEmpty :: "'a Deque \<Rightarrow> bool" where
  "IsEmpty d = (length (ditems d) = 0)"

definition deque_Clear :: "'a Deque \<Rightarrow> 'a Deque" where
  "deque_Clear d = d\<lparr>ditems := []\<rparr>"

text \<open>
  The callers of the duality property: push a whole sequence to the back, then call a pop
  method a given number of times, collecting every \<open>(value, found)\<close> result in call order.
\<close>

definition PushBack_all :: "'a Deque \<Rightarrow> 'a list \<Rightarrow> 'a Deque" where
  "PushBack_all d s = foldl PushBack d s"

fun pop_times :: "('d \<Rightarrow> 'r \<times> 'd) \<Rightarrow> nat \<Rightarrow> 'd \<Rightarrow> 'r list \<times> 'd" where
  "pop_times pop 0 d = ([], d)"
| "pop_times pop (Suc n) d =
     (let (r, d') = pop d; (rs, d'') = pop_times pop n d' in (r # rs, d''))"

section \<open>Priority queue (priorityqueue/priorityqueue.go)\<close>

text \<open>
  \<^verbatim>\<open>type Item[T any] struct { Value T; index int }\<close> and
  \<^verbatim>\<open>type PriorityQueue[T any] struct { items []*Item[T]; less func(a, b T) bool }\<close>.
  The queue stores pointers to items, and a handle given to a caller is such a pointer, so
  the items live in an explicit memory: a list of items in which the address of an item
  is its position. Allocation appends to the memory. A panic of the Go code (an index
  out of range, a nil dereference) is the result \<open>None\<close>.
\<close>

type_synonym addr = nat

record 'a Item =
  Value :: 'a
  index :: int

record 'a PriorityQueue =
  items :: "addr list"
  less_fn :: "'a \<Rightarrow> 'a \<Rightarrow> bool"

record 'a pqstate =
  mem :: "'a Item list"
  pq :: "'a PriorityQueue"

definition deref :: "'a pqstate \<Rightarrow> addr \<Rightarrow> 'a Item option" where
  "deref st a = (if a < length (mem st) then Some (mem st ! a) else None)"

definition item_at :: "'a pqstate \<Rightarrow> nat \<Rightarrow> addr option" where
  "item_at st i = (if i < length (items (pq st)) then Some (items (pq st) ! i) else None)"

definition store_index :: "'a pqstate \<Rightarrow> addr \<Rightarrow> int \<Rightarrow> 'a pqstate option" where
  "store_index st a v =
     (if a < length (mem st) then Some (st\<lparr>mem := (mem st)[a := (mem st ! a)\<lparr>index := v\<rparr>]\<rparr>)
      else None)"

definition set_items :: "'a pqstate \<Rightarrow> addr list \<Rightarrow> 'a pqstate" where
  "set_items st xs = st\<lparr>pq := (pq st)\<lparr>items := xs\<rparr>\<rparr>"

subsection \<open>The methods of heap.Interface\<close>

definition pq_Len :: "'a pqstate \<Rightarrow> int" where
  "pq_Len st = int (length (items (pq st)))"

definition pq_Less :: "'a pqstate \<Rightarrow> nat \<Rightarrow> nat \<Rightarrow> bool option" where
  "pq_Less st i j = do {
     a \<leftarrow> item_at st i;
     x \<leftarrow> deref st a;
     b \<leftarrow> item_at st j;
     y \<leftarrow> deref st b;
     Some (less_fn (pq st) (Value x) (Value y))
   }"

definition pq_Swap :: "'a pqstate \<Rightarrow> nat \<Rightarrow> nat \<Rightarrow> 'a pqstate option" where
  "pq_Swap st i j = do {
     a \<leftarrow> item_at st i;
     b \<leftarrow> item_at st j;
     let st1 = set_items st ((items (pq st))[i := b, j := a]);
     st2 \<leftarrow> store_index st1 (items (pq st1) ! i) (int i);
     store_index st2 (items (pq st2) ! j) (int j)
   }"

definition pq_Push :: "'a pqstate \<Rightarrow> addr \<Rightarrow> 'a pqstate option" where
  "pq_Push st it = do {
     st1 \<leftarrow> store_index st it (int (length (items (pq st))));
     Some (set_items st1 (items (pq st1) @ [it]))
   }"

definition pq_Pop :: "'a pqstate \<Rightarrow> (addr \<times> 'a pqstate) option" where
  "pq_Pop st =
     (let n = length (items (pq st)) in
      if n = 0 then None
      else do {
        let it = items (pq st) ! (n - 1);
        st1 \<leftarrow> store_index st it (- 1);
        Some (it, set_items st1 (take (n - 1) (items (pq st1))))
      })"

subsection \<open>container/heap\<close>

text \<open>
  The queue calls Init, Push, Pop and Remove of the Go standard library's package
  container/heap, which are written over the interface above with the two loops
  \<open>up\<close> and \<open>down\<close>:
  \<^verbatim>\<open>
  func up(h Interface, j int) {
      for {
          i := (j - 1) / 2 // parent
          if i == j || !h.Less(j, i) { break }
          h.Swap(i, j)
          j = i
      }
  }
  func down(h Interface, i0, n int) bool {
      i := i0
      for {
          j1 := 2*i + 1
          if j1 >= n || j1 < 0 { break } // j1 < 0 after int overflow
          j := j1 // left child
          if j2 := j1 + 1; j2 < n && h.Less(j2, j1) { j = j2 }
          if !h.Less(j, i) { break }
          h.Swap(i, j)
          i = j
      }
      return i > i0
  }
  func Init(h Interface) {
      n := h.Len()
      for i := n/2 - 1; i >= 0; i-- { down(h, i, n) }
  }
  func Push(h Interface, x any) { h.Push(x); up(h, h.Len()-1) }
  func Pop(h Interface) any {
      n := h.Len() - 1
      h.Swap(0, n); down(h, 0, n)
      return h.Pop()
  }
  func Remove(h Interface, i int) any {
      n := h.Len() - 1
      if n != i {
          h.Swap(i, n)
          if !down(h, i, n) { up(h, i) }
      }
      return h.Pop()
  }
  \<close>
  Positions are natural numbers here. Go's \<open>(j - 1) / 2\<close> truncates towards zero, so it
  is \<open>0\<close> at \<open>j = 0\<close>, which is also what subtraction on \<open>nat\<close> gives. A slice of
  pointers has fewer than \<open>2^60\<close> elements, so \<open>2*i + 1\<close> does not overflow a 64-bit
  \<open>int\<close> and the test \<open>j1 < 0\<close> is never true. On an empty heap \<open>n\<close> is \<open>-1\<close> in Pop
  and Remove and \<open>h.Swap\<close> panics with an index out of range.
\<close>

function heap_up :: "'a pqstate \<Rightarrow> nat \<Rightarrow> 'a pqstate option" where
  "heap_up st j =
     (let i = (j - 1) div 2 in
      if i = j then Some st
      else do {
        b \<leftarrow> pq_Less st j i;
        if \<not> b then Some st
        else do { st' \<leftarrow> pq_Swap st i j; heap_up st' i }
      })"
  by pat_completeness auto
termination
  by (relation "measure (\<lambda>(st, j). j)") auto

declare heap_up.simps [simp del]

function down_loop :: "'a pqstate \<Rightarrow> nat \<Rightarrow> nat \<Rightarrow> ('a pqstate \<times> nat) option" where
  "down_loop st i n =
     (let j1 = 2 * i + 1 in
      if j1 \<ge> n then Some (st, i)
      else do {
        r \<leftarrow> (if j1 + 1 < n then pq_Less st (j1 + 1) j1 else Some False);
        let j = (if r then j1 + 1 else j1);
        b \<leftarrow> pq_Less st j i;
        if \<not> b then Some (st, i)
        else do { st' \<leftarrow> pq_Swap st i j; down_loop st' j n }
      })"
  by pat_completeness auto
termination
  by (relation "measure (\<lambda>(st, i, n). n - i)") auto

declare down_loop.simps [simp del]

definition heap_down :: "'a pqstate \<Rightarrow> nat \<Rightarrow> nat \<Rightarrow> ('a pqstate \<times> bool) option" where
  "heap_down st i0 n = do { (st', i) \<leftarrow> down_loop st i0 n; Some (st', i > i0) }"

fun init_loop :: "'a pqstate \<Rightarrow> nat \<Rightarrow> nat \<Rightarrow> 'a pqstate option" where
  "init_loop st 0 n = Some st"
| "init_loop st (Suc i) n = do { (st', _) \<leftarrow> heap_down st i n; init_loop st' i n }"

definition heap_Init :: "'a pqstate \<Rightarrow> 'a pqstate option" where
  "heap_Init st = (let n = length (items (pq st)) in init_loop st (n div 2) n)"

definition heap_Push :: "'a pqstate \<Rightarrow> addr \<Rightarrow> 'a pqstate option" where
  "heap_Push st x = do {
     st1 \<leftarrow> pq_Push st x;
     heap_up st1 (length (items (pq st1)) - 1)
   }"

definition heap_Pop :: "'a pqstate \<Rightarrow> (addr \<times> 'a pqstate) option" where
  "heap_Pop st =
     (if length (items (pq st)) = 0 then None
      else do {
        let n = length (items (pq st)) - 1;
        st1 \<leftarrow> pq_Swap st 0 n;
        (st2, _) \<leftarrow> heap_down st1 0 n;
        pq_Pop st2
      })"

definition heap_Remove :: "'a pqstate \<Rightarrow> nat \<Rightarrow> (addr \<times> 'a pqstate) option" where
  "heap_Remove st i =
     (if length (items (pq st)) = 0 then None
      else do {
        let n = length (items (pq st)) - 1;
        st3 \<leftarrow> (if n \<noteq> i then do {
                  st1 \<leftarrow> pq_Swap st i n;
                  (st2, moved) \<leftarrow> heap_down st1 i n;
                  if \<not> moved then heap_up st2 i else Some st2
                } else Some st);
        pq_Pop st3
      })"

subsection \<open>The queue's own methods\<close>

text \<open>
  \<open>New\<close> builds the queue value and calls \<open>heap.Init\<close>; it allocates no item, so the
  memory it is given is the memory it returns. \<^verbatim>\<open>&Item[T]{Value: value}\<close> allocates an
  item whose \<open>index\<close> is the zero value \<open>0\<close>. A handle is a pointer, \<open>None\<close> being
  \<open>nil\<close>; reading \<open>it.index\<close> through \<open>nil\<close> panics.
\<close>

definition pq_New :: "('a \<Rightarrow> 'a \<Rightarrow> bool) \<Rightarrow> 'a Item list \<Rightarrow> 'a pqstate option" where
  "pq_New lessf m = heap_Init \<lparr>mem = m, pq = \<lparr>items = [], less_fn = lessf\<rparr>\<rparr>"

definition PushAndReturnItem :: "'a pqstate \<Rightarrow> 'a \<Rightarrow> (addr \<times> 'a pqstate) option" where
  "PushAndReturnItem st v =
     (let it = length (mem st);
          st1 = st\<lparr>mem := mem st @ [\<lparr>Value = v, index = 0\<rparr>]\<rparr>
      in do { st2 \<leftarrow> heap_Push st1 it; Some (it, st2) })"

definition PushValue :: "'a pqstate \<Rightarrow> 'a \<Rightarrow> 'a pqstate option" where
  "PushValue st v = do { (_, st') \<leftarrow> PushAndReturnItem st v; Some st' }"

definition RemoveItem ::
  "'a::default pqstate \<Rightarrow> addr option \<Rightarrow> (('a \<times> bool) \<times> 'a pqstate) option" where
  "RemoveItem st it = do {
     a \<leftarrow> it;
     x \<leftarrow> deref st a;
     if index x < 0 \<or> index x \<ge> pq_Len st then Some ((default, False), st)
     else do {
       (r, st') \<leftarrow> heap_Remove st (nat (index x));
       removed \<leftarrow> deref st' r;
       Some ((Value removed, True), st')
     }
   }"

definition PopValue :: "'a::default pqstate \<Rightarrow> (('a \<times> bool) \<times> 'a pqstate) option" where
  "PopValue st =
     (if pq_Len st = 0 then Some ((default, False), st)
      else do {
        (r, st') \<leftarrow> heap_Pop st;
        it \<leftarrow> deref st' r;
        Some ((Value it, True), st')
      })"

definition pq_Peek :: "'a::default pqstate \<Rightarrow> (('a \<times> bool) \<times> 'a pqstate) option" where
  "pq_Peek st =
     (if pq_Len st = 0 then Some ((default, False), st)
      else do {
        a \<leftarrow> item_at st 0;
        it \<leftarrow> deref st a;
        Some ((Value it, True), st)
      })"

definition PeekValue :: "'a::default pqstate \<Rightarrow> (('a \<times> bool) \<times> 'a pqstate) option" where
  "PeekValue st = pq_Peek st"

subsection \<open>Callers\<close>

text \<open>
  A caller's program is a list of calls. The caller keeps the handles that
  PushAndReturnItem returned, in call order, and \<open>CallRemoveItem k\<close> passes the
  \<open>k\<close>-th of them to RemoveItem (\<open>nil\<close> when there is no such handle). Running a
  program gives, for every call, what the call returned (nothing for PushValue; the
  pair \<open>(value, found)\<close> for the others, which for PushAndReturnItem is the pushed
  value and \<open>true\<close>) and what \<open>Len()\<close> says right after it.
\<close>

datatype 'a call =
  CallPushValue 'a
| CallPushAndReturnItem 'a
| CallPopValue
| CallRemoveItem nat
| CallPeek

fun pushed_value :: "'a call \<Rightarrow> 'a option" where
  "pushed_value (CallPushValue v) = Some v"
| "pushed_value (CallPushAndReturnItem v) = Some v"
| "pushed_value _ = None"

fun run_call ::
  "'a::default call \<Rightarrow> 'a pqstate \<times> addr list \<Rightarrow>
     (('a \<times> bool) option \<times> 'a pqstate \<times> addr list) option" where
  "run_call (CallPushValue v) (st, hs) =
     (case PushValue st v of None \<Rightarrow> None | Some st' \<Rightarrow> Some (None, st', hs))"
| "run_call (CallPushAndReturnItem v) (st, hs) =
     (case PushAndReturnItem st v of None \<Rightarrow> None
      | Some (h, st') \<Rightarrow> Some (Some (v, True), st', hs @ [h]))"
| "run_call CallPopValue (st, hs) =
     (case PopValue st of None \<Rightarrow> None | Some (r, st') \<Rightarrow> Some (Some r, st', hs))"
| "run_call (CallRemoveItem k) (st, hs) =
     (case RemoveItem st (if k < length hs then Some (hs ! k) else None) of None \<Rightarrow> None
      | Some (r, st') \<Rightarrow> Some (Some r, st', hs))"
| "run_call CallPeek (st, hs) =
     (case pq_Peek st of None \<Rightarrow> None | Some (r, st') \<Rightarrow> Some (Some r, st', hs))"

fun run_calls ::
  "'a::default call list \<Rightarrow> 'a pqstate \<times> addr list \<Rightarrow>
     ((('a \<times> bool) option \<times> int) list \<times> 'a pqstate \<times> addr list) option" where
  "run_calls [] s = Some ([], s)"
| "run_calls (c # cs) s =
     (case run_call c s of None \<Rightarrow> None
      | Some (r, s') \<Rightarrow>
          (case run_calls cs s' of None \<Rightarrow> None
           | Some (rs, s'') \<Rightarrow> Some ((r, pq_Len (fst s')) # rs, s'')))"

definition run_new ::
  "('a \<Rightarrow> 'a \<Rightarrow> bool) \<Rightarrow> 'a::default call list \<Rightarrow>
     ((('a \<times> bool) option \<times> int) list \<times> 'a pqstate \<times> addr list) option" where
  "run_new lessf cs =
     (case pq_New lessf [] of None \<Rightarrow> None | Some st \<Rightarrow> run_calls cs (st, []))"

section \<open>Priority queue: invariants\<close>

text \<open>
  The comparator is a strict weak ordering: irreflexive, transitive, and with a
  transitive incomparability.
\<close>

definition strict_weak_order :: "('a \<Rightarrow> 'a \<Rightarrow> bool) \<Rightarrow> bool" where
  "strict_weak_order lt \<longleftrightarrow>
     (\<forall>x. \<not> lt x x) \<and>
     (\<forall>x y z. lt x y \<and> lt y z \<longrightarrow> lt x z) \<and>
     (\<forall>x y z. \<not> lt x y \<and> \<not> lt y z \<longrightarrow> \<not> lt x z)"

text \<open>The values of the queue's entries, in the order of the backing slice.\<close>

definition vals :: "'a pqstate \<Rightarrow> 'a list" where
  "vals st = map (\<lambda>a. Value (mem st ! a)) (items (pq st))"

text \<open>
  Index bookkeeping: every entry of the backing slice is an allocated item whose
  \<open>index\<close> field is its position in the slice.
\<close>

definition index_ok :: "'a pqstate \<Rightarrow> bool" where
  "index_ok st \<longleftrightarrow>
     (\<forall>i < length (items (pq st)).
        items (pq st) ! i < length (mem st) \<and>
        index (mem st ! (items (pq st) ! i)) = int i)"

text \<open>
  With a set \<open>R\<close> of items that were entries once and have been removed: each of them
  is outside the slice and has the index \<open>-1\<close>.
\<close>

definition pq_inv :: "'a pqstate \<Rightarrow> addr set \<Rightarrow> bool" where
  "pq_inv st R \<longleftrightarrow>
     index_ok st \<and>
     (\<forall>a \<in> R. a < length (mem st) \<and> a \<notin> set (items (pq st)) \<and> index (mem st ! a) = - 1)"

text \<open>
  What a step of the heap functions may change: the \<open>index\<close> fields of entries of the
  slice, and the order of the slice. The comparator, the values, the items outside the
  slice and the size of the memory stay.
\<close>

definition frame :: "'a pqstate \<Rightarrow> 'a pqstate \<Rightarrow> bool" where
  "frame st st' \<longleftrightarrow>
     length (mem st') = length (mem st) \<and>
     less_fn (pq st') = less_fn (pq st) \<and>
     (\<forall>a. Value (mem st' ! a) = Value (mem st ! a)) \<and>
     (\<forall>a. a \<notin> set (items (pq st)) \<longrightarrow> mem st' ! a = mem st ! a) \<and>
     mset (items (pq st')) = mset (items (pq st))"

text \<open>
  What taking the entry \<open>h\<close> out of the queue does to the state, and what adding the
  allocated item \<open>h\<close> to the queue does.
\<close>

definition removes :: "'a pqstate \<Rightarrow> addr \<Rightarrow> 'a pqstate \<Rightarrow> bool" where
  "removes st h st' \<longleftrightarrow>
     h \<in> set (items (pq st)) \<and>
     mset (items (pq st')) = mset (items (pq st)) - {#h#} \<and>
     length (mem st') = length (mem st) \<and>
     less_fn (pq st') = less_fn (pq st) \<and>
     (\<forall>a. Value (mem st' ! a) = Value (mem st ! a)) \<and>
     (\<forall>a. a \<notin> set (items (pq st)) \<longrightarrow> mem st' ! a = mem st ! a) \<and>
     index (mem st' ! h) = - 1"

definition inserts :: "'a pqstate \<Rightarrow> addr \<Rightarrow> 'a pqstate \<Rightarrow> bool" where
  "inserts st h st' \<longleftrightarrow>
     h \<notin> set (items (pq st)) \<and>
     mset (items (pq st')) = add_mset h (mset (items (pq st))) \<and>
     length (mem st') = length (mem st) \<and>
     less_fn (pq st') = less_fn (pq st) \<and>
     (\<forall>a. Value (mem st' ! a) = Value (mem st ! a)) \<and>
     (\<forall>a. a \<notin> set (items (pq st)) \<and> a \<noteq> h \<longrightarrow> mem st' ! a = mem st ! a)"

text \<open>What PushAndReturnItem does to the state: it allocates the item and adds it.\<close>

definition pushes :: "'a pqstate \<Rightarrow> 'a \<Rightarrow> 'a pqstate \<Rightarrow> bool" where
  "pushes st v st' \<longleftrightarrow>
     length (mem st') = Suc (length (mem st)) \<and>
     less_fn (pq st') = less_fn (pq st) \<and>
     Value (mem st' ! length (mem st)) = v \<and>
     (\<forall>a < length (mem st). Value (mem st' ! a) = Value (mem st ! a)) \<and>
     (\<forall>a < length (mem st). a \<notin> set (items (pq st)) \<longrightarrow> mem st' ! a = mem st ! a) \<and>
     mset (items (pq st')) = add_mset (length (mem st)) (mset (items (pq st)))"

text \<open>
  The heap property of the first \<open>n\<close> values of a list: no value is strictly before
  its parent, the parent of position \<open>k\<close> being position \<open>(k - 1) div 2\<close>.
\<close>

definition parent_ok :: "('a \<Rightarrow> 'a \<Rightarrow> bool) \<Rightarrow> 'a list \<Rightarrow> nat \<Rightarrow> bool" where
  "parent_ok lt xs k \<longleftrightarrow> \<not> lt (xs ! k) (xs ! ((k - 1) div 2))"

definition heap_upto :: "('a \<Rightarrow> 'a \<Rightarrow> bool) \<Rightarrow> 'a list \<Rightarrow> nat \<Rightarrow> bool" where
  "heap_upto lt xs n \<longleftrightarrow> (\<forall>k. 0 < k \<and> k < n \<longrightarrow> parent_ok lt xs k)"

text \<open>
  The heap property with a hole at position \<open>i\<close>: the value at \<open>i\<close> may be out of
  order with its parent and with its children, every other pair is in order, and the
  children of \<open>i\<close> are in order with the parent of \<open>i\<close>.
\<close>

definition heap_hole :: "('a \<Rightarrow> 'a \<Rightarrow> bool) \<Rightarrow> 'a list \<Rightarrow> nat \<Rightarrow> nat \<Rightarrow> bool" where
  "heap_hole lt xs n i \<longleftrightarrow>
     (\<forall>k. 0 < k \<and> k < n \<and> k \<noteq> i \<and> (k - 1) div 2 \<noteq> i \<longrightarrow> parent_ok lt xs k) \<and>
     (\<forall>k. 0 < k \<and> k < n \<and> (k - 1) div 2 = i \<and> 0 < i \<longrightarrow>
        \<not> lt (xs ! k) (xs ! ((i - 1) div 2)))"

text \<open>
  The same for \<open>up\<close>: only the pair of position \<open>j\<close> and its parent may be out
  of order, and the children of \<open>j\<close> are in order with the parent of \<open>j\<close>.
\<close>

definition heap_hole_up :: "('a \<Rightarrow> 'a \<Rightarrow> bool) \<Rightarrow> 'a list \<Rightarrow> nat \<Rightarrow> nat \<Rightarrow> bool" where
  "heap_hole_up lt xs n j \<longleftrightarrow>
     (\<forall>k. 0 < k \<and> k < n \<and> k \<noteq> j \<longrightarrow> parent_ok lt xs k) \<and>
     (\<forall>k. 0 < k \<and> k < n \<and> (k - 1) div 2 = j \<and> 0 < j \<longrightarrow>
        \<not> lt (xs ! k) (xs ! ((j - 1) div 2)))"

text \<open>The child that \<open>down\<close> compares with position \<open>i\<close>, when \<open>2 * i + 1 < n\<close>.\<close>

definition child_pick :: "('a \<Rightarrow> 'a \<Rightarrow> bool) \<Rightarrow> 'a list \<Rightarrow> nat \<Rightarrow> nat \<Rightarrow> nat" where
  "child_pick lt xs n i =
     (if 2 * i + 2 < n \<and> lt (xs ! (2 * i + 2)) (xs ! (2 * i + 1)) then 2 * i + 2 else 2 * i + 1)"

text \<open>The invariant of the queue: index bookkeeping and the heap property.\<close>

definition pq_heap :: "'a pqstate \<Rightarrow> bool" where
  "pq_heap st \<longleftrightarrow>
     index_ok st \<and> heap_upto (less_fn (pq st)) (vals st) (length (items (pq st)))"

text \<open>
  The states a caller can reach from \<open>New\<close> on an empty memory with the handles \<open>hs\<close>
  it was given: besides the index bookkeeping, every allocated item that is not in the
  slice has the index \<open>-1\<close>, and every handle is an allocated item.
\<close>

definition tracked :: "'a pqstate \<Rightarrow> addr list \<Rightarrow> bool" where
  "tracked st hs \<longleftrightarrow>
     index_ok st \<and>
     (\<forall>a < length (mem st). a \<notin> set (items (pq st)) \<longrightarrow> index (mem st ! a) = - 1) \<and>
     (\<forall>h \<in> set hs. h < length (mem st))"

section \<open>Concrete inputs\<close>

text \<open>
  The comparator of the repository's tests, \<^verbatim>\<open>func(a, b int) bool { return a > b }\<close>
  (a max-heap), and some small states of the queue over \<open>int\<close>.
\<close>

definition gt :: "int \<Rightarrow> int \<Rightarrow> bool" where
  "gt a b \<longleftrightarrow> a > b"

definition empty_queue :: "int pqstate" where
  "empty_queue = \<lparr>mem = [], pq = \<lparr>items = [], less_fn = gt\<rparr>\<rparr>"

text \<open>One entry with the value 5, and an item with the value 7 that was removed before.\<close>

definition one_entry_queue :: "int pqstate" where
  "one_entry_queue =
     \<lparr>mem = [\<lparr>Value = 5, index = 0\<rparr>, \<lparr>Value = 7, index = - 1\<rparr>],
      pq = \<lparr>items = [0], less_fn = gt\<rparr>\<rparr>"

text \<open>
  The queue after \<^verbatim>\<open>pq.PushValue(7)\<close>, in a memory where the caller has then allocated
  an item of its own with \<^verbatim>\<open>&Item[int]{Value: 99}\<close> (address 1, \<open>index\<close> zero).
\<close>

definition foreign_item_queue :: "int pqstate" where
  "foreign_item_queue =
     \<lparr>mem = [\<lparr>Value = 7, index = 0\<rparr>, \<lparr>Value = 99, index = 0\<rparr>],
      pq = \<lparr>items = [0], less_fn = gt\<rparr>\<rparr>"

section \<open>Deque: proofs\<close>

lemma ditems_PushBack_all: "ditems (PushBack_all d s) = ditems d @ s"
  unfolding PushBack_all_def
  by (induction s arbitrary: d) (simp_all add: PushBack_def)

lemma PopFront_Cons:
  "ditems d = x # xs \<Longrightarrow> PopFront d = ((x, True), d\<lparr>ditems := xs\<rparr>)"
  by (simp add: PopFront_def)

lemma PopBack_snoc:
  "ditems d = xs @ [x] \<Longrightarrow> PopBack d = ((x, True), d\<lparr>ditems := xs\<rparr>)"
  by (simp add: PopBack_def)

lemma pop_times_PopFront:
  "ditems d = s \<Longrightarrow>
   pop_times PopFront (length s) d = (map (\<lambda>x. (x, True)) s, d\<lparr>ditems := []\<rparr>)"
proof (induction s arbitrary: d)
  case Nil
  then show ?case by simp
next
  case (Cons x xs)
  have "ditems (d\<lparr>ditems := xs\<rparr>) = xs" by simp
  from Cons.IH [OF this] PopFront_Cons [OF Cons.prems]
  show ?case by simp
qed

lemma pop_times_PopBack:
  "ditems d = s \<Longrightarrow>
   pop_times PopBack (length s) d = (map (\<lambda>x. (x, True)) (rev s), d\<lparr>ditems := []\<rparr>)"
proof (induction s arbitrary: d rule: rev_induct)
  case Nil
  then show ?case by simp
next
  case (snoc x xs)
  have "ditems (d\<lparr>ditems := xs\<rparr>) = xs" by simp
  from snoc.IH [OF this] PopBack_snoc [OF snoc.prems]
  show ?case by simp
qed

text \<open>
  C9. Deque FIFO/LIFO duality: pushing every element of a sequence \<open>s\<close> in order with
  PushBack onto a new deque and then calling PopFront \<open>len(s)\<close> times returns exactly
  \<open>s\<close>, in order, each with \<open>found = true\<close>; calling PopBack \<open>len(s)\<close> times instead
  returns \<open>s\<close> reversed. Either way the deque is empty afterwards.
\<close>

theorem C9_deque_fifo_lifo:
  "pop_times PopFront (length s) (PushBack_all deque_New s) = (map (\<lambda>x. (x, True)) s, deque_New)
   \<and> pop_times PopBack (length s) (PushBack_all deque_New s) = (map (\<lambda>x. (x, True)) (rev s), deque_New)"
proof -
  have i: "ditems (PushBack_all deque_New s) = s"
    by (simp add: ditems_PushBack_all deque_New_def)
  have e: "(PushBack_all deque_New s)\<lparr>ditems := []\<rparr> = (deque_New :: 'a Deque)"
    by (simp add: deque_New_def)
  show ?thesis
    using pop_times_PopFront [OF i] pop_times_PopBack [OF i] by (simp add: e)
qed

text \<open>
  C10. The unsuffixed methods of the deque are aliases of the back-end operations:
  Push gives the same deque as PushBack, and Pop and Peek give the same
  \<open>(value, found)\<close> result and the same resulting deque as PopBack and PeekBack.
\<close>

theorem C10_deque_aliases:
  "Push d v = PushBack d v \<and> Pop d = PopBack d \<and> Peek d = PeekBack d"
  by (simp add: Push_def Pop_def Peek_def)

section \<open>Priority queue: the steps of the heap\<close>

lemma index_ok_distinct: "index_ok st \<Longrightarrow> distinct (items (pq st))"
  unfolding index_ok_def distinct_conv_nth
  by (metis of_nat_eq_iff)

lemma frame_refl: "frame st st"
  by (simp add: frame_def)

lemma frame_trans: "frame a b \<Longrightarrow> frame b c \<Longrightarrow> frame a c"
  unfolding frame_def
  by (metis mset_eq_setD)

lemma vals_frame:
  "frame st st' \<Longrightarrow> vals st' = map (\<lambda>a. Value (mem st ! a)) (items (pq st'))"
  by (simp add: vals_def frame_def)

lemma length_vals [simp]: "length (vals st) = length (items (pq st))"
  by (simp add: vals_def)

lemma pq_Less_ok:
  assumes "index_ok st" "i < length (items (pq st))" "j < length (items (pq st))"
  shows "pq_Less st i j = Some (less_fn (pq st) (vals st ! i) (vals st ! j))"
  using assms by (simp add: pq_Less_def item_at_def deref_def index_ok_def vals_def)

lemma index_ok_nth_eq:
  "index_ok st \<Longrightarrow> i < length (items (pq st)) \<Longrightarrow> j < length (items (pq st)) \<Longrightarrow>
   items (pq st) ! i = items (pq st) ! j \<longleftrightarrow> i = j"
  unfolding index_ok_def by (metis of_nat_eq_iff)

lemma pq_Swap_ok:
  assumes ok: "index_ok st" and i: "i < length (items (pq st))" and j: "j < length (items (pq st))"
  shows "\<exists>st'. pq_Swap st i j = Some st' \<and> index_ok st' \<and> frame st st' \<and>
           items (pq st') = (items (pq st))[i := items (pq st) ! j, j := items (pq st) ! i]"
proof -
  define xs where "xs = items (pq st)"
  define m where "m = mem st"
  define a where "a = xs ! i"
  define b where "b = xs ! j"
  define xs' where "xs' = xs[i := b, j := a]"
  define c where "c = xs' ! i"
  define m1 where "m1 = m[c := (m ! c)\<lparr>index := int i\<rparr>]"
  define m2 where "m2 = m1[a := (m1 ! a)\<lparr>index := int j\<rparr>]"
  define st' where "st' = st\<lparr>mem := m2, pq := (pq st)\<lparr>items := xs'\<rparr>\<rparr>"
  have la: "a < length m" and lb: "b < length m"
    using ok i j by (simp_all add: index_ok_def a_def b_def xs_def m_def)
  have lc: "c < length m"
    using la lb i j by (simp add: c_def xs'_def nth_list_update xs_def)
  have xj: "xs' ! j = a"
    using j by (simp add: xs'_def xs_def)
  have sw: "pq_Swap st i j = Some st'"
    using i j la lb lc xj
    by (simp add: pq_Swap_def item_at_def store_index_def set_items_def Let_def
        st'_def m2_def m1_def c_def xs'_def a_def b_def xs_def m_def)
  have inj: "\<And>p q. p < length xs \<Longrightarrow> q < length xs \<Longrightarrow> (xs ! p = xs ! q) = (p = q)"
    using index_ok_nth_eq [OF ok] by (simp add: xs_def)
  have ix: "\<And>k. k < length xs \<Longrightarrow> xs ! k < length m \<and> index (m ! (xs ! k)) = int k"
    using ok by (simp add: index_ok_def xs_def m_def)
  have ok': "index_ok st'"
    unfolding index_ok_def
  proof (intro allI impI)
    fix k assume "k < length (items (pq st'))"
    then have k: "k < length xs" by (simp add: st'_def xs'_def)
    show "items (pq st') ! k < length (mem st') \<and>
          index (mem st' ! (items (pq st') ! k)) = int k"
      using k i j ix [OF k] ix [of i] ix [of j] inj [of k i] inj [of k j] inj [of i j] la lb lc
      by (auto simp: st'_def m2_def m1_def c_def xs'_def a_def b_def nth_list_update xs_def [symmetric])
  qed
  have ms: "mset xs' = mset xs"
    using i j mset_swap [of j xs i] by (simp add: xs'_def a_def b_def xs_def)
  have fr: "frame st st'"
    unfolding frame_def
    using i j la lb lc ms
    by (auto simp: st'_def m2_def m1_def c_def xs'_def a_def b_def nth_list_update
        xs_def [symmetric] m_def [symmetric])
  show ?thesis
    using sw ok' fr by (auto simp: st'_def xs'_def a_def b_def xs_def)
qed

lemma vals_swap:
  assumes fr: "frame st st'"
    and it: "items (pq st') = (items (pq st))[i := items (pq st) ! j, j := items (pq st) ! i]"
    and i: "i < length (items (pq st))" and j: "j < length (items (pq st))"
  shows "vals st' = (vals st)[i := vals st ! j, j := vals st ! i]"
proof -
  have "vals st' = map (\<lambda>a. Value (mem st ! a)) (items (pq st'))"
    using fr by (rule vals_frame)
  also have "\<dots> = (vals st)[i := vals st ! j, j := vals st ! i]"
    using i j by (simp add: it vals_def map_update)
  finally show ?thesis .
qed

lemma swo_asym: "strict_weak_order lt \<Longrightarrow> lt x y \<Longrightarrow> \<not> lt y x"
  unfolding strict_weak_order_def by blast

lemma swo_trans: "strict_weak_order lt \<Longrightarrow> lt x y \<Longrightarrow> lt y z \<Longrightarrow> lt x z"
  unfolding strict_weak_order_def by blast

lemma swo_ntrans: "strict_weak_order lt \<Longrightarrow> \<not> lt x y \<Longrightarrow> \<not> lt y z \<Longrightarrow> \<not> lt x z"
  unfolding strict_weak_order_def by blast

lemma parent_eq_iff:
  "0 < (k::nat) \<Longrightarrow> ((k - 1) div 2 = i) = (k = 2 * i + 1 \<or> k = 2 * i + 2)"
  by presburger

lemma down_stop:
  assumes swo: "strict_weak_order lt"
    and nlt: "\<not> lt (xs ! child_pick lt xs n i) (xs ! i)"
    and k: "0 < k" "k < n" "(k - 1) div 2 = i"
  shows "parent_ok lt xs k"
proof -
  from k parent_eq_iff [of k i] have kk: "k = 2 * i + 1 \<or> k = 2 * i + 2" by simp
  show ?thesis
  proof (cases "2 * i + 2 < n \<and> lt (xs ! (2 * i + 2)) (xs ! (2 * i + 1))")
    case True
    then have c: "child_pick lt xs n i = 2 * i + 2" by (simp add: child_pick_def)
    have "\<not> lt (xs ! (2 * i + 1)) (xs ! i)"
      using swo_trans [OF swo, of "xs ! (2 * i + 2)" "xs ! (2 * i + 1)" "xs ! i"] True nlt c
      by auto
    with nlt c kk k show ?thesis by (auto simp: parent_ok_def)
  next
    case False
    then have c: "child_pick lt xs n i = 2 * i + 1" by (simp add: child_pick_def)
    have "2 * i + 2 < n \<Longrightarrow> \<not> lt (xs ! (2 * i + 2)) (xs ! i)"
      using swo_ntrans [OF swo, of "xs ! (2 * i + 2)" "xs ! (2 * i + 1)" "xs ! i"] False nlt c
      by auto
    with nlt c kk k show ?thesis by (auto simp: parent_ok_def)
  qed
qed

lemma down_step:
  assumes swo: "strict_weak_order lt"
    and hole: "heap_hole lt xs n i"
    and n: "n \<le> length xs" and c: "2 * i + 1 < n"
    and j: "j = child_pick lt xs n i"
    and lt: "lt (xs ! j) (xs ! i)"
    and ys: "ys = xs[i := xs ! j, j := xs ! i]"
  shows "heap_hole lt ys n j \<and> parent_ok lt ys j \<and> (0 < i \<longrightarrow> parent_ok lt ys i)"
proof -
  have jn: "j < n" and ji: "i < j" and pj: "(j - 1) div 2 = i"
    using c j by (auto simp: child_pick_def)
  have il: "i < length xs" and jl: "j < length xs" using jn ji n by auto
  have yi: "ys ! i = xs ! j" and yj: "ys ! j = xs ! i"
    using il jl ji by (simp_all add: ys)
  have yo: "\<And>k. k \<noteq> i \<Longrightarrow> k \<noteq> j \<Longrightarrow> ys ! k = xs ! k"
    by (simp add: ys)
  have sib: "\<And>k. 0 < k \<Longrightarrow> k < n \<Longrightarrow> (k - 1) div 2 = i \<Longrightarrow> k \<noteq> j \<Longrightarrow> \<not> lt (xs ! k) (xs ! j)"
  proof -
    fix k assume k: "0 < k" "k < n" "(k - 1) div 2 = i" "k \<noteq> j"
    from k parent_eq_iff [of k i] have kk: "k = 2 * i + 1 \<or> k = 2 * i + 2" by simp
    show "\<not> lt (xs ! k) (xs ! j)"
      using kk k j swo_asym [OF swo, of "xs ! (2 * i + 2)" "xs ! (2 * i + 1)"]
      by (auto simp: child_pick_def split: if_splits)
  qed
  have pi: "0 < i \<Longrightarrow> parent_ok lt ys i"
  proof -
    assume i0: "0 < i"
    have "(i - 1) div 2 \<noteq> i" "(i - 1) div 2 \<noteq> j" using i0 ji by auto
    then have "ys ! ((i - 1) div 2) = xs ! ((i - 1) div 2)" by (rule yo)
    moreover have "\<not> lt (xs ! j) (xs ! ((i - 1) div 2))"
      using hole jn ji pj i0 by (auto simp: heap_hole_def)
    ultimately show ?thesis by (simp add: parent_ok_def yi)
  qed
  have pjo: "parent_ok lt ys j"
    using swo_asym [OF swo lt] pj by (simp add: parent_ok_def yi yj)
  have h1: "\<And>k. 0 < k \<Longrightarrow> k < n \<Longrightarrow> k \<noteq> j \<Longrightarrow> (k - 1) div 2 \<noteq> j \<Longrightarrow> parent_ok lt ys k"
  proof -
    fix k assume k: "0 < k" "k < n" "k \<noteq> j" "(k - 1) div 2 \<noteq> j"
    show "parent_ok lt ys k"
    proof (cases "k = i")
      case True
      with pi k show ?thesis by simp
    next
      case ki: False
      show ?thesis
      proof (cases "(k - 1) div 2 = i")
        case True
        then show ?thesis using sib [OF k(1,2) True k(3)] ki k by (simp add: parent_ok_def yi yo)
      next
        case False
        then have "parent_ok lt xs k" using hole k ki by (auto simp: heap_hole_def)
        then show ?thesis using ki k False by (simp add: parent_ok_def yo)
      qed
    qed
  qed
  have h2: "\<And>k. 0 < k \<Longrightarrow> k < n \<Longrightarrow> (k - 1) div 2 = j \<Longrightarrow> \<not> lt (ys ! k) (ys ! ((j - 1) div 2))"
  proof -
    fix k assume k: "0 < k" "k < n" "(k - 1) div 2 = j"
    have ki: "k \<noteq> i" "k \<noteq> j" using k ji by auto
    have "(k - 1) div 2 \<noteq> i" using k ji by auto
    then have "parent_ok lt xs k" using hole k ki by (auto simp: heap_hole_def)
    then show "\<not> lt (ys ! k) (ys ! ((j - 1) div 2))"
      using ki k pj by (simp add: parent_ok_def yi yo)
  qed
  show ?thesis
    using h1 h2 pjo pi by (auto simp: heap_hole_def)
qed

lemma down_loop_leaf: "n \<le> 2 * i + 1 \<Longrightarrow> down_loop st i n = Some (st, i)"
  by (subst down_loop.simps) simp

lemma down_loop_inner:
  assumes "index_ok st" "n \<le> length (items (pq st))" "2 * i + 1 < n"
  shows "down_loop st i n =
     (let j = child_pick (less_fn (pq st)) (vals st) n i in
      if \<not> less_fn (pq st) (vals st ! j) (vals st ! i) then Some (st, i)
      else do { st' \<leftarrow> pq_Swap st i j; down_loop st' j n })"
  using assms
  by (subst down_loop.simps) (simp add: pq_Less_ok child_pick_def Let_def)

lemma frame_items_length: "frame st st' \<Longrightarrow> length (items (pq st')) = length (items (pq st))"
  unfolding frame_def by (metis size_mset)

lemma down_loop_spec:
  assumes "index_ok st" "n \<le> length (items (pq st))"
  shows "\<exists>st' i'. down_loop st i n = Some (st', i') \<and> index_ok st' \<and> frame st st' \<and> i \<le> i' \<and>
           drop n (items (pq st')) = drop n (items (pq st)) \<and>
           (i' = i \<longrightarrow> st' = st) \<and>
           (strict_weak_order (less_fn (pq st)) \<and> heap_hole (less_fn (pq st)) (vals st) n i \<longrightarrow>
              (\<forall>k. 0 < k \<and> k < n \<and> k \<noteq> i \<longrightarrow> parent_ok (less_fn (pq st)) (vals st') k) \<and>
              (i' \<noteq> i \<longrightarrow> 0 < i \<longrightarrow> parent_ok (less_fn (pq st)) (vals st') i))"
  using assms
proof (induction "n - i" arbitrary: st i rule: less_induct)
  case less
  define lt where "lt = less_fn (pq st)"
  note ok = less.prems(1) and n = less.prems(2)
  have rest: "\<And>k. heap_hole lt (vals st) n i \<Longrightarrow>
      0 < k \<Longrightarrow> k < n \<Longrightarrow> k \<noteq> i \<Longrightarrow> (k - 1) div 2 \<noteq> i \<Longrightarrow> parent_ok lt (vals st) k"
    by (auto simp: heap_hole_def)
  show ?case
  proof (cases "n \<le> 2 * i + 1")
    case True
    have "\<And>k. heap_hole lt (vals st) n i \<Longrightarrow> 0 < k \<Longrightarrow> k < n \<Longrightarrow> k \<noteq> i \<Longrightarrow>
        parent_ok lt (vals st) k"
    proof -
      fix k assume k: "heap_hole lt (vals st) n i" "0 < k" "k < n" "k \<noteq> i"
      with True parent_eq_iff [of k i] have "(k - 1) div 2 \<noteq> i" by auto
      with k rest show "parent_ok lt (vals st) k" by simp
    qed
    then show ?thesis
      using down_loop_leaf [OF True, of st] ok
      by (intro exI [of _ st] exI [of _ i]) (simp add: frame_refl lt_def)
  next
    case False
    then have c: "2 * i + 1 < n" by simp
    define j where "j = child_pick lt (vals st) n i"
    have jn: "j < n" and ji: "i < j"
      using c by (auto simp: j_def child_pick_def)
    have il: "i < length (items (pq st))" and jl: "j < length (items (pq st))"
      using jn ji n by auto
    show ?thesis
    proof (cases "lt (vals st ! j) (vals st ! i)")
      case nlt: False
      have "\<And>k. strict_weak_order lt \<Longrightarrow> heap_hole lt (vals st) n i \<Longrightarrow>
          0 < k \<Longrightarrow> k < n \<Longrightarrow> k \<noteq> i \<Longrightarrow> parent_ok lt (vals st) k"
      proof -
        fix k assume swo: "strict_weak_order lt" and hole: "heap_hole lt (vals st) n i"
          and k: "0 < k" "k < n" "k \<noteq> i"
        show "parent_ok lt (vals st) k"
        proof (cases "(k - 1) div 2 = i")
          case True
          show ?thesis
            using down_stop [OF swo nlt [unfolded j_def] k(1,2) True] .
        next
          case False
          with k rest hole show ?thesis by simp
        qed
      qed
      moreover have "down_loop st i n = Some (st, i)"
        using down_loop_inner [OF ok n c] nlt by (simp add: j_def lt_def Let_def)
      ultimately show ?thesis
        using ok by (intro exI [of _ st] exI [of _ i]) (simp add: frame_refl lt_def)
    next
      case lt: True
      obtain st1 where sw: "pq_Swap st i j = Some st1" and ok1: "index_ok st1"
        and fr1: "frame st st1"
        and it1: "items (pq st1) = (items (pq st))[i := items (pq st) ! j, j := items (pq st) ! i]"
        using pq_Swap_ok [OF ok il jl] by blast
      have v1: "vals st1 = (vals st)[i := vals st ! j, j := vals st ! i]"
        using vals_swap [OF fr1 it1 il jl] .
      have lt1: "less_fn (pq st1) = lt"
        using fr1 by (simp add: frame_def lt_def)
      have n1: "n \<le> length (items (pq st1))"
        using n by (simp add: it1)
      have nv: "n \<le> length (vals st)" using n by simp
      have "n - j < n - i" using jn ji by simp
      from less.hyps [OF this ok1 n1]
      obtain st' i' where dl: "down_loop st1 j n = Some (st', i')" and ok': "index_ok st'"
        and fr': "frame st1 st'" and le: "j \<le> i'"
        and dr: "drop n (items (pq st')) = drop n (items (pq st1))"
        and same: "i' = j \<longrightarrow> st' = st1"
        and ord: "strict_weak_order lt \<and> heap_hole lt (vals st1) n j \<longrightarrow>
              (\<forall>k. 0 < k \<and> k < n \<and> k \<noteq> j \<longrightarrow> parent_ok lt (vals st') k) \<and>
              (i' \<noteq> j \<longrightarrow> 0 < j \<longrightarrow> parent_ok lt (vals st') j)"
        unfolding lt1 by blast
      have d: "down_loop st i n = Some (st', i')"
        using down_loop_inner [OF ok n c] lt sw dl by (simp add: j_def lt_def Let_def)
      have dr1: "drop n (items (pq st1)) = drop n (items (pq st))"
        using jn ji by (simp add: it1)
      have order: "(\<forall>k. 0 < k \<and> k < n \<and> k \<noteq> i \<longrightarrow> parent_ok lt (vals st') k) \<and>
              (0 < i \<longrightarrow> parent_ok lt (vals st') i)"
        if swo: "strict_weak_order lt" and hole: "heap_hole lt (vals st) n i"
      proof -
        from down_step [OF swo hole nv c j_def lt v1]
        have hole1: "heap_hole lt (vals st1) n j" and pj: "parent_ok lt (vals st1) j"
          and pi: "0 < i \<longrightarrow> parent_ok lt (vals st1) i"
          by auto
        from ord swo hole1
        have po: "\<forall>k. 0 < k \<and> k < n \<and> k \<noteq> j \<longrightarrow> parent_ok lt (vals st') k"
          and pn: "i' \<noteq> j \<longrightarrow> 0 < j \<longrightarrow> parent_ok lt (vals st') j"
          by auto
        have pj': "parent_ok lt (vals st') j"
          using pn same pj ji by (cases "i' = j") auto
        have all: "\<forall>k. 0 < k \<and> k < n \<and> k \<noteq> i \<longrightarrow> parent_ok lt (vals st') k"
          using po pj' by blast
        have pi': "0 < i \<longrightarrow> parent_ok lt (vals st') i"
          using po ji jn by auto
        show ?thesis using all pi' by simp
      qed
      show ?thesis
        using d ok' frame_trans [OF fr1 fr'] le ji dr dr1 order
        by (intro exI [of _ st'] exI [of _ i']) (simp add: lt_def)
    qed
  qed
qed

lemma heap_down_spec:
  assumes "index_ok st" "n \<le> length (items (pq st))"
  shows "\<exists>st' moved. heap_down st i n = Some (st', moved) \<and> index_ok st' \<and> frame st st' \<and>
           drop n (items (pq st')) = drop n (items (pq st)) \<and>
           (\<not> moved \<longrightarrow> st' = st) \<and>
           (strict_weak_order (less_fn (pq st)) \<and> heap_hole (less_fn (pq st)) (vals st) n i \<longrightarrow>
              (\<forall>k. 0 < k \<and> k < n \<and> k \<noteq> i \<longrightarrow> parent_ok (less_fn (pq st)) (vals st') k) \<and>
              (moved \<longrightarrow> 0 < i \<longrightarrow> parent_ok (less_fn (pq st)) (vals st') i))"
proof -
  from down_loop_spec [OF assms, of i]
  obtain st' i' where d: "down_loop st i n = Some (st', i')" and
    r: "index_ok st' \<and> frame st st' \<and> i \<le> i' \<and>
           drop n (items (pq st')) = drop n (items (pq st)) \<and>
           (i' = i \<longrightarrow> st' = st) \<and>
           (strict_weak_order (less_fn (pq st)) \<and> heap_hole (less_fn (pq st)) (vals st) n i \<longrightarrow>
              (\<forall>k. 0 < k \<and> k < n \<and> k \<noteq> i \<longrightarrow> parent_ok (less_fn (pq st)) (vals st') k) \<and>
              (i' \<noteq> i \<longrightarrow> 0 < i \<longrightarrow> parent_ok (less_fn (pq st)) (vals st') i))"
    by blast
  have "heap_down st i n = Some (st', i < i')"
    using d by (simp add: heap_down_def)
  then show ?thesis
    using r by (intro exI [of _ st'] exI [of _ "i < i'"]) auto
qed

lemma up_stop:
  assumes "heap_hole_up lt xs n j" "j = 0 \<or> parent_ok lt xs j"
  shows "heap_upto lt xs n"
  using assms unfolding heap_hole_up_def heap_upto_def by (metis less_numeral_extra(3))

lemma up_step:
  assumes swo: "strict_weak_order lt"
    and hole: "heap_hole_up lt xs n j"
    and n: "n \<le> length xs" and j0: "0 < j" and jn: "j < n"
    and i: "i = (j - 1) div 2"
    and lt: "lt (xs ! j) (xs ! i)"
    and ys: "ys = xs[i := xs ! j, j := xs ! i]"
  shows "heap_hole_up lt ys n i"
proof -
  have ij: "i < j" using i j0 by auto
  have il: "i < length xs" and jl: "j < length xs" using jn ij n by auto
  have yi: "ys ! i = xs ! j" and yj: "ys ! j = xs ! i"
    using il jl ij by (simp_all add: ys)
  have yo: "\<And>k. k \<noteq> i \<Longrightarrow> k \<noteq> j \<Longrightarrow> ys ! k = xs ! k"
    by (simp add: ys)
  have old: "\<And>k. 0 < k \<Longrightarrow> k < n \<Longrightarrow> k \<noteq> j \<Longrightarrow> \<not> lt (xs ! k) (xs ! ((k - 1) div 2))"
    using hole by (auto simp: heap_hole_up_def parent_ok_def)
  have gp: "\<And>k. 0 < k \<Longrightarrow> k < n \<Longrightarrow> (k - 1) div 2 = j \<Longrightarrow> \<not> lt (xs ! k) (xs ! i)"
    using hole j0 i by (auto simp: heap_hole_up_def)
  have h1: "\<And>k. 0 < k \<Longrightarrow> k < n \<Longrightarrow> k \<noteq> i \<Longrightarrow> parent_ok lt ys k"
  proof -
    fix k assume k: "0 < k" "k < n" "k \<noteq> i"
    show "parent_ok lt ys k"
    proof (cases "k = j")
      case True
      then show ?thesis
        using swo_asym [OF swo lt] i [symmetric] by (simp add: parent_ok_def yi yj)
    next
      case kj: False
      show ?thesis
      proof (cases "(k - 1) div 2 = i")
        case True
        have "\<not> lt (xs ! k) (xs ! i)" using old [OF k(1,2) kj] True by simp
        then have "\<not> lt (xs ! k) (xs ! j)"
          using swo_trans [OF swo _ lt] by blast
        then show ?thesis using True k kj by (simp add: parent_ok_def yi yo)
      next
        case pi: False
        show ?thesis
        proof (cases "(k - 1) div 2 = j")
          case True
          then show ?thesis using gp [OF k(1,2) True] k kj by (simp add: parent_ok_def yj yo)
        next
          case False
          then show ?thesis using old [OF k(1,2) kj] k kj pi by (simp add: parent_ok_def yo)
        qed
      qed
    qed
  qed
  have h2: "\<And>k. 0 < k \<Longrightarrow> k < n \<Longrightarrow> (k - 1) div 2 = i \<Longrightarrow> 0 < i \<Longrightarrow>
      \<not> lt (ys ! k) (ys ! ((i - 1) div 2))"
  proof -
    fix k assume k: "0 < k" "k < n" "(k - 1) div 2 = i" "0 < i"
    have p: "(i - 1) div 2 \<noteq> i" "(i - 1) div 2 \<noteq> j" using k ij by auto
    have yp: "ys ! ((i - 1) div 2) = xs ! ((i - 1) div 2)" using p by (rule yo)
    have oi: "\<not> lt (xs ! i) (xs ! ((i - 1) div 2))"
      using old [of i] k ij jn by auto
    show "\<not> lt (ys ! k) (ys ! ((i - 1) div 2))"
    proof (cases "k = j")
      case True
      then show ?thesis using oi yp by (simp add: yj)
    next
      case False
      have ki: "k \<noteq> i" using k by auto
      have "\<not> lt (xs ! k) (xs ! i)" using old [OF k(1,2) False] k by simp
      from swo_ntrans [OF swo this oi] show ?thesis using False ki yp by (simp add: yo)
    qed
  qed
  show ?thesis
    unfolding heap_hole_up_def using h1 h2 by blast
qed

lemma heap_up_root: "heap_up st 0 = Some st"
  by (subst heap_up.simps) simp

lemma heap_up_inner:
  assumes "index_ok st" "j < length (items (pq st))" "0 < j"
  shows "heap_up st j =
     (let i = (j - 1) div 2 in
      if \<not> less_fn (pq st) (vals st ! j) (vals st ! i) then Some st
      else do { st' \<leftarrow> pq_Swap st i j; heap_up st' i })"
proof -
  have "(j - 1) div 2 < length (items (pq st))" "(j - 1) div 2 \<noteq> j"
    using assms by auto
  then show ?thesis
    using assms by (subst heap_up.simps) (simp add: pq_Less_ok Let_def)
qed

lemma heap_up_spec:
  assumes "index_ok st" "n \<le> length (items (pq st))" "j < n"
  shows "\<exists>st'. heap_up st j = Some st' \<and> index_ok st' \<and> frame st st' \<and>
           drop n (items (pq st')) = drop n (items (pq st)) \<and>
           (strict_weak_order (less_fn (pq st)) \<and> heap_hole_up (less_fn (pq st)) (vals st) n j \<longrightarrow>
              heap_upto (less_fn (pq st)) (vals st') n)"
  using assms
proof (induction j arbitrary: st rule: less_induct)
  case (less j)
  define lt where "lt = less_fn (pq st)"
  note ok = less.prems(1) and n = less.prems(2) and jn = less.prems(3)
  show ?case
  proof (cases "j = 0")
    case True
    then show ?thesis
      using heap_up_root [of st] ok up_stop [of lt "vals st" n j]
      by (intro exI [of _ st]) (simp add: frame_refl lt_def)
  next
    case False
    then have j0: "0 < j" by simp
    define i where "i = (j - 1) div 2"
    have ij: "i < j" using j0 by (simp add: i_def)
    have jl: "j < length (items (pq st))" and il: "i < length (items (pq st))"
      using jn n ij by auto
    show ?thesis
    proof (cases "lt (vals st ! j) (vals st ! i)")
      case nlt: False
      have "heap_up st j = Some st"
        using heap_up_inner [OF ok jl j0] nlt by (simp add: i_def lt_def Let_def)
      moreover have "heap_hole_up lt (vals st) n j \<Longrightarrow> heap_upto lt (vals st) n"
        using up_stop [of lt "vals st" n j] nlt by (simp add: parent_ok_def i_def)
      ultimately show ?thesis
        using ok by (intro exI [of _ st]) (simp add: frame_refl lt_def)
    next
      case lt: True
      obtain st1 where sw: "pq_Swap st i j = Some st1" and ok1: "index_ok st1"
        and fr1: "frame st st1"
        and it1: "items (pq st1) = (items (pq st))[i := items (pq st) ! j, j := items (pq st) ! i]"
        using pq_Swap_ok [OF ok il jl] by blast
      have v1: "vals st1 = (vals st)[i := vals st ! j, j := vals st ! i]"
        using vals_swap [OF fr1 it1 il jl] .
      have lt1: "less_fn (pq st1) = lt"
        using fr1 by (simp add: frame_def lt_def)
      have n1: "n \<le> length (items (pq st1))"
        using n by (simp add: it1)
      have nv: "n \<le> length (vals st)" using n by simp
      have "i < n" using ij jn by simp
      from less.IH [OF ij ok1 n1 this]
      obtain st' where up: "heap_up st1 i = Some st'" and ok': "index_ok st'"
        and fr': "frame st1 st'"
        and dr: "drop n (items (pq st')) = drop n (items (pq st1))"
        and ord: "strict_weak_order lt \<and> heap_hole_up lt (vals st1) n i \<longrightarrow>
                    heap_upto lt (vals st') n"
        unfolding lt1 by blast
      have u: "heap_up st j = Some st'"
        using heap_up_inner [OF ok jl j0] lt sw up by (simp add: i_def lt_def Let_def)
      have dr1: "drop n (items (pq st1)) = drop n (items (pq st))"
        using jn ij by (simp add: it1)
      have order: "heap_upto lt (vals st') n"
        if swo: "strict_weak_order lt" and hole: "heap_hole_up lt (vals st) n j"
        using ord swo up_step [OF swo hole nv j0 jn i_def lt v1] by simp
      show ?thesis
        using u ok' frame_trans [OF fr1 fr'] dr dr1 order
        by (intro exI [of _ st']) (simp add: lt_def)
    qed
  qed
qed

lemma index_ok_bound: "index_ok st \<Longrightarrow> a \<in> set (items (pq st)) \<Longrightarrow> a < length (mem st)"
  unfolding index_ok_def by (auto simp: in_set_conv_nth)

lemma pq_Push_ok:
  assumes ok: "index_ok st" and h: "h < length (mem st)" and nh: "h \<notin> set (items (pq st))"
  shows "\<exists>st'. pq_Push st h = Some st' \<and> index_ok st' \<and>
           items (pq st') = items (pq st) @ [h] \<and>
           length (mem st') = length (mem st) \<and> less_fn (pq st') = less_fn (pq st) \<and>
           (\<forall>a. Value (mem st' ! a) = Value (mem st ! a)) \<and>
           (\<forall>a. a \<noteq> h \<longrightarrow> mem st' ! a = mem st ! a)"
proof -
  define st' where "st' = st\<lparr>mem := (mem st)[h := (mem st ! h)\<lparr>index := int (length (items (pq st)))\<rparr>],
      pq := (pq st)\<lparr>items := items (pq st) @ [h]\<rparr>\<rparr>"
  have p: "pq_Push st h = Some st'"
    using h by (simp add: pq_Push_def store_index_def set_items_def st'_def)
  have "index_ok st'"
    using ok h nh unfolding index_ok_def
    by (auto simp: st'_def nth_append nth_list_update)
  moreover have "\<forall>a. Value (mem st' ! a) = Value (mem st ! a)"
    using h by (auto simp: st'_def nth_list_update)
  ultimately show ?thesis
    using p by (intro exI [of _ st']) (simp add: st'_def)
qed

lemma pq_Pop_ok:
  assumes ok: "index_ok st" and ne: "items (pq st) \<noteq> []"
  shows "\<exists>st'. pq_Pop st = Some (last (items (pq st)), st') \<and> index_ok st' \<and>
           items (pq st') = butlast (items (pq st)) \<and>
           length (mem st') = length (mem st) \<and> less_fn (pq st') = less_fn (pq st) \<and>
           (\<forall>a. Value (mem st' ! a) = Value (mem st ! a)) \<and>
           (\<forall>a. a \<noteq> last (items (pq st)) \<longrightarrow> mem st' ! a = mem st ! a) \<and>
           index (mem st' ! last (items (pq st))) = - 1"
proof -
  define xs where "xs = items (pq st)"
  define h where "h = last xs"
  define st' where "st' = st\<lparr>mem := (mem st)[h := (mem st ! h)\<lparr>index := - 1\<rparr>],
      pq := (pq st)\<lparr>items := butlast xs\<rparr>\<rparr>"
  have hx: "h = xs ! (length xs - 1)" using ne by (simp add: h_def xs_def last_conv_nth)
  have hl: "h < length (mem st)"
    using index_ok_bound [OF ok, of h] ne by (simp add: h_def xs_def)
  have p: "pq_Pop st = Some (h, st')"
    using ne hl hx
    by (simp add: pq_Pop_def store_index_def set_items_def st'_def Let_def butlast_conv_take
        xs_def [symmetric])
  have d: "distinct xs" using index_ok_distinct [OF ok] by (simp add: xs_def)
  have nb: "\<And>k. k < length xs - 1 \<Longrightarrow> xs ! k \<noteq> h"
  proof -
    fix k assume k: "k < length xs - 1"
    then have "(xs ! k = xs ! (length xs - 1)) = (k = length xs - 1)"
      using d by (intro nth_eq_iff_index_eq) auto
    with k hx show "xs ! k \<noteq> h" by simp
  qed
  have "index_ok st'"
    unfolding index_ok_def
  proof (intro allI impI)
    fix k assume "k < length (items (pq st'))"
    then have k: "k < length xs - 1" by (simp add: st'_def)
    have "xs ! k < length (mem st) \<and> index (mem st ! (xs ! k)) = int k"
      using ok k by (simp add: index_ok_def xs_def)
    then show "items (pq st') ! k < length (mem st') \<and>
        index (mem st' ! (items (pq st') ! k)) = int k"
      using k nb [OF k] by (simp add: st'_def nth_butlast)
  qed
  moreover have "\<forall>a. Value (mem st' ! a) = Value (mem st ! a)"
    using hl by (auto simp: st'_def nth_list_update)
  ultimately show ?thesis
    using p hl by (intro exI [of _ st']) (simp add: st'_def h_def xs_def)
qed

lemma frame_set: "frame st st' \<Longrightarrow> set (items (pq st')) = set (items (pq st))"
  unfolding frame_def by (metis mset_eq_setD)

lemma hole_after_swap:
  assumes swo: "strict_weak_order lt"
    and hp: "heap_upto lt xs (Suc n)"
    and i: "i \<le> n"
    and ys: "ys = xs[i := xs ! n, n := xs ! i]"
  shows "heap_hole lt ys n i"
proof -
  have yo: "\<And>k. k \<noteq> i \<Longrightarrow> k \<noteq> n \<Longrightarrow> ys ! k = xs ! k"
    by (simp add: ys)
  have old: "\<And>k. 0 < k \<Longrightarrow> k \<le> n \<Longrightarrow> \<not> lt (xs ! k) (xs ! ((k - 1) div 2))"
    using hp by (auto simp: heap_upto_def parent_ok_def)
  have h1: "\<And>k. 0 < k \<Longrightarrow> k < n \<Longrightarrow> k \<noteq> i \<Longrightarrow> (k - 1) div 2 \<noteq> i \<Longrightarrow> parent_ok lt ys k"
  proof -
    fix k assume k: "0 < k" "k < n" "k \<noteq> i" "(k - 1) div 2 \<noteq> i"
    have "(k - 1) div 2 \<noteq> n" using k by auto
    then have "ys ! ((k - 1) div 2) = xs ! ((k - 1) div 2)" using k yo by blast
    moreover have "ys ! k = xs ! k" using k yo by auto
    ultimately show "parent_ok lt ys k" using old [of k] k by (simp add: parent_ok_def)
  qed
  have h2: "\<And>k. 0 < k \<Longrightarrow> k < n \<Longrightarrow> (k - 1) div 2 = i \<Longrightarrow> 0 < i \<Longrightarrow>
      \<not> lt (ys ! k) (ys ! ((i - 1) div 2))"
  proof -
    fix k assume k: "0 < k" "k < n" "(k - 1) div 2 = i" "0 < i"
    have "(i - 1) div 2 \<noteq> n" "(i - 1) div 2 \<noteq> i" using k i by auto
    then have yp: "ys ! ((i - 1) div 2) = xs ! ((i - 1) div 2)" using yo by blast
    have yk: "ys ! k = xs ! k" using k yo by auto
    have "\<not> lt (xs ! k) (xs ! i)" using old [of k] k by auto
    moreover have "\<not> lt (xs ! i) (xs ! ((i - 1) div 2))" using old [of i] k i by auto
    ultimately show "\<not> lt (ys ! k) (ys ! ((i - 1) div 2))"
      using swo_ntrans [OF swo] yp yk by metis
  qed
  show ?thesis unfolding heap_hole_def using h1 h2 by blast
qed

lemma heap_upto_butlast:
  assumes "heap_upto lt xs n" "n \<le> length xs - 1"
  shows "heap_upto lt (butlast xs) n"
  unfolding heap_upto_def parent_ok_def
proof (intro allI impI)
  fix k assume k: "0 < k \<and> k < n"
  then have "k < length (butlast xs)" "(k - 1) div 2 < length (butlast xs)"
    using assms(2) by auto
  then have "butlast xs ! k = xs ! k" "butlast xs ! ((k - 1) div 2) = xs ! ((k - 1) div 2)"
    by (simp_all only: nth_butlast)
  then show "\<not> lt (butlast xs ! k) (butlast xs ! ((k - 1) div 2))"
    using assms(1) k by (simp add: heap_upto_def parent_ok_def)
qed

lemma pop_after_frame:
  assumes ok3: "index_ok st3" and fr: "frame st st3" and ne: "items (pq st) \<noteq> []"
    and h: "last (items (pq st3)) = h"
  shows "\<exists>st4. pq_Pop st3 = Some (h, st4) \<and> index_ok st4 \<and> removes st h st4 \<and>
           length (items (pq st4)) = length (items (pq st)) - 1 \<and>
           (heap_upto (less_fn (pq st)) (vals st3) (length (items (pq st)) - 1) \<longrightarrow>
            heap_upto (less_fn (pq st)) (vals st4) (length (items (pq st)) - 1))"
proof -
  have len: "length (items (pq st3)) = length (items (pq st))"
    using fr by (rule frame_items_length)
  then have ne3: "items (pq st3) \<noteq> []" using ne by auto
  from pq_Pop_ok [OF ok3 ne3] h
  obtain st4 where p: "pq_Pop st3 = Some (h, st4)" and ok4: "index_ok st4"
    and it4: "items (pq st4) = butlast (items (pq st3))"
    and l4: "length (mem st4) = length (mem st3)"
    and lt4: "less_fn (pq st4) = less_fn (pq st3)"
    and v4: "\<forall>a. Value (mem st4 ! a) = Value (mem st3 ! a)"
    and o4: "\<forall>a. a \<noteq> h \<longrightarrow> mem st4 ! a = mem st3 ! a"
    and i4: "index (mem st4 ! h) = - 1"
    by auto
  have hin3: "h \<in> set (items (pq st3))" using ne3 h by auto
  then have hin: "h \<in> set (items (pq st))" using frame_set [OF fr] by simp
  have "items (pq st3) = butlast (items (pq st3)) @ [h]"
    using ne3 h by (metis append_butlast_last_id)
  then have "mset (items (pq st3)) = mset (butlast (items (pq st3)) @ [h])"
    by simp
  then have "mset (items (pq st3)) = add_mset h (mset (items (pq st4)))"
    unfolding it4 by simp
  then have "mset (items (pq st4)) = mset (items (pq st3)) - {#h#}"
    by simp
  then have ms: "mset (items (pq st4)) = mset (items (pq st)) - {#h#}"
    using fr by (simp add: frame_def)
  have rm: "removes st h st4"
    unfolding removes_def using hin ms l4 lt4 v4 o4 i4 fr
    by (auto simp: frame_def)
  have vv: "vals st4 = butlast (vals st3)"
    using v4 by (simp add: vals_def it4 map_butlast)
  have hu: "heap_upto lt (vals st4) (length (items (pq st)) - 1)"
    if "heap_upto lt (vals st3) (length (items (pq st)) - 1)" for lt
    unfolding vv using that len by (intro heap_upto_butlast) simp_all
  show ?thesis
    using p ok4 rm hu it4 len by (intro exI [of _ st4]) simp
qed

lemma last_from_drop:
  assumes "drop n ys = drop n xs" "length xs = Suc n" "length ys = Suc n"
  shows "last ys = xs ! n"
proof -
  have "ys \<noteq> []" using assms(3) by auto
  then have "last ys = ys ! n" using assms(3) by (simp add: last_conv_nth)
  also have "\<dots> = drop n ys ! 0" using assms(3) by simp
  also have "\<dots> = xs ! n" using assms(1,2) by simp
  finally show ?thesis .
qed

lemma heap_upto_from_down:
  assumes "\<forall>k. 0 < k \<and> k < n \<and> k \<noteq> i \<longrightarrow> parent_ok lt xs k"
    and "0 < i \<longrightarrow> parent_ok lt xs i"
  shows "heap_upto lt xs n"
  using assms unfolding heap_upto_def by (metis)

lemma heap_Remove_spec:
  assumes ok: "index_ok st" and i: "i < length (items (pq st))"
  shows "\<exists>st'. heap_Remove st i = Some (items (pq st) ! i, st') \<and> index_ok st' \<and>
           removes st (items (pq st) ! i) st' \<and>
           length (items (pq st')) = length (items (pq st)) - 1 \<and>
           (strict_weak_order (less_fn (pq st)) \<and>
            heap_upto (less_fn (pq st)) (vals st) (length (items (pq st))) \<longrightarrow>
            heap_upto (less_fn (pq st)) (vals st') (length (items (pq st)) - 1))"
proof -
  define lt where "lt = less_fn (pq st)"
  define n where "n = length (items (pq st)) - 1"
  define h where "h = items (pq st) ! i"
  have len: "length (items (pq st)) = Suc n" and ne: "items (pq st) \<noteq> []" and le: "i \<le> n"
    using i by (auto simp: n_def)
  have nl: "n < length (items (pq st))" using len by simp
  have "\<exists>st3. (if n \<noteq> i then do {
                  st1 \<leftarrow> pq_Swap st i n;
                  (st2, moved) \<leftarrow> heap_down st1 i n;
                  if \<not> moved then heap_up st2 i else Some st2
                } else Some st) = Some st3 \<and> index_ok st3 \<and> frame st st3 \<and>
            last (items (pq st3)) = h \<and>
            (strict_weak_order lt \<and> heap_upto lt (vals st) (Suc n) \<longrightarrow> heap_upto lt (vals st3) n)"
  proof (cases "n = i")
    case True
    have "last (items (pq st)) = h"
      using ne True by (simp add: h_def last_conv_nth n_def)
    moreover have "heap_upto lt (vals st) (Suc n) \<Longrightarrow> heap_upto lt (vals st) n"
      by (simp add: heap_upto_def)
    ultimately show ?thesis
      using True ok by (intro exI [of _ st]) (simp add: frame_refl)
  next
    case False
    then have "i < n" using le by simp
    obtain st1 where sw: "pq_Swap st i n = Some st1" and ok1: "index_ok st1"
      and fr1: "frame st st1"
      and it1: "items (pq st1) = (items (pq st))[i := items (pq st) ! n, n := items (pq st) ! i]"
      using pq_Swap_ok [OF ok i nl] by blast
    have v1: "vals st1 = (vals st)[i := vals st ! n, n := vals st ! i]"
      using vals_swap [OF fr1 it1 i nl] .
    have lt1: "less_fn (pq st1) = lt"
      using fr1 by (simp add: frame_def lt_def)
    have n1: "n \<le> length (items (pq st1))"
      using len by (simp add: it1)
    from heap_down_spec [OF ok1 n1, of i]
    obtain st2 moved where dn: "heap_down st1 i n = Some (st2, moved)" and ok2: "index_ok st2"
      and fr2: "frame st1 st2"
      and dr2: "drop n (items (pq st2)) = drop n (items (pq st1))"
      and same: "\<not> moved \<longrightarrow> st2 = st1"
      and ord2: "strict_weak_order lt \<and> heap_hole lt (vals st1) n i \<longrightarrow>
              (\<forall>k. 0 < k \<and> k < n \<and> k \<noteq> i \<longrightarrow> parent_ok lt (vals st2) k) \<and>
              (moved \<longrightarrow> 0 < i \<longrightarrow> parent_ok lt (vals st2) i)"
      unfolding lt1 by blast
    have lt2: "less_fn (pq st2) = lt"
      using fr2 lt1 by (simp add: frame_def)
    have n2: "n \<le> length (items (pq st2))"
      using n1 frame_items_length [OF fr2] by simp
    from heap_up_spec [OF ok2 n2 \<open>i < n\<close>]
    obtain st3u where up: "heap_up st2 i = Some st3u" and ok3u: "index_ok st3u"
      and fr3u: "frame st2 st3u"
      and dr3u: "drop n (items (pq st3u)) = drop n (items (pq st2))"
      and ord3u: "strict_weak_order lt \<and> heap_hole_up lt (vals st2) n i \<longrightarrow>
                    heap_upto lt (vals st3u) n"
      unfolding lt2 by blast
    define st3 where "st3 = (if \<not> moved then st3u else st2)"
    have e: "(if n \<noteq> i then do {
                  st1 \<leftarrow> pq_Swap st i n;
                  (st2, moved) \<leftarrow> heap_down st1 i n;
                  if \<not> moved then heap_up st2 i else Some st2
                } else Some st) = Some st3"
      using False sw dn up by (simp add: st3_def)
    have ok3: "index_ok st3" using ok2 ok3u by (simp add: st3_def)
    have fr23: "frame st2 st3" using fr3u by (simp add: st3_def frame_refl)
    have fr3: "frame st st3" using frame_trans [OF frame_trans [OF fr1 fr2] fr23] .
    have dr3: "drop n (items (pq st3)) = drop n (items (pq st1))"
      using dr2 dr3u by (simp add: st3_def)
    have l1: "length (items (pq st1)) = Suc n" using len by (simp add: it1)
    have l3: "length (items (pq st3)) = Suc n"
      using frame_items_length [OF fr3] len by simp
    have "last (items (pq st3)) = items (pq st1) ! n"
      using last_from_drop [OF dr3 l1 l3] .
    then have la: "last (items (pq st3)) = h"
      using nl by (simp add: it1 h_def)
    have order: "heap_upto lt (vals st3) n"
      if swo: "strict_weak_order lt" and hp: "heap_upto lt (vals st) (Suc n)"
    proof -
      have hole: "heap_hole lt (vals st1) n i"
        using hole_after_swap [OF swo hp le v1] .
      with ord2 swo
      have po: "\<forall>k. 0 < k \<and> k < n \<and> k \<noteq> i \<longrightarrow> parent_ok lt (vals st2) k"
        and pm: "moved \<longrightarrow> 0 < i \<longrightarrow> parent_ok lt (vals st2) i"
        by auto
      show ?thesis
      proof (cases moved)
        case True
        then show ?thesis
          using heap_upto_from_down [OF po] pm by (simp add: st3_def)
      next
        case False
        then have s: "st2 = st1" using same by simp
        have "heap_hole_up lt (vals st2) n i"
          using po hole unfolding heap_hole_up_def heap_hole_def s by blast
        then show ?thesis using ord3u swo False by (simp add: st3_def)
      qed
    qed
    show ?thesis
      using e ok3 fr3 la order by (intro exI [of _ st3]) simp
  qed
  then obtain st3 where e: "(if n \<noteq> i then do {
                  st1 \<leftarrow> pq_Swap st i n;
                  (st2, moved) \<leftarrow> heap_down st1 i n;
                  if \<not> moved then heap_up st2 i else Some st2
                } else Some st) = Some st3" and ok3: "index_ok st3" and fr3: "frame st st3"
    and la: "last (items (pq st3)) = h"
    and ord3: "strict_weak_order lt \<and> heap_upto lt (vals st) (Suc n) \<longrightarrow> heap_upto lt (vals st3) n"
    by blast
  from pop_after_frame [OF ok3 fr3 ne la]
  obtain st4 where p: "pq_Pop st3 = Some (h, st4)" and ok4: "index_ok st4"
    and rm: "removes st h st4"
    and l4: "length (items (pq st4)) = length (items (pq st)) - 1"
    and hu: "heap_upto lt (vals st3) n \<longrightarrow> heap_upto lt (vals st4) n"
    unfolding lt_def n_def by blast
  have "heap_Remove st i = do {
        st3 \<leftarrow> (if n \<noteq> i then do {
                  st1 \<leftarrow> pq_Swap st i n;
                  (st2, moved) \<leftarrow> heap_down st1 i n;
                  if \<not> moved then heap_up st2 i else Some st2
                } else Some st);
        pq_Pop st3 }"
    using ne by (simp add: heap_Remove_def n_def Let_def)
  also have "\<dots> = Some (h, st4)"
    unfolding e using p by simp
  finally show ?thesis
    using ok4 rm l4 ord3 hu len
    by (intro exI [of _ st4]) (simp add: h_def lt_def)
qed

lemma heap_Pop_spec:
  assumes ok: "index_ok st" and ne: "items (pq st) \<noteq> []"
  shows "\<exists>st'. heap_Pop st = Some (items (pq st) ! 0, st') \<and> index_ok st' \<and>
           removes st (items (pq st) ! 0) st' \<and>
           length (items (pq st')) = length (items (pq st)) - 1 \<and>
           (strict_weak_order (less_fn (pq st)) \<and>
            heap_upto (less_fn (pq st)) (vals st) (length (items (pq st))) \<longrightarrow>
            heap_upto (less_fn (pq st)) (vals st') (length (items (pq st)) - 1))"
proof -
  define lt where "lt = less_fn (pq st)"
  define n where "n = length (items (pq st)) - 1"
  define h where "h = items (pq st) ! 0"
  have len: "length (items (pq st)) = Suc n"
    using ne by (simp add: n_def)
  have nl: "n < length (items (pq st))" and zl: "0 < length (items (pq st))"
    using len by simp_all
  obtain st1 where sw: "pq_Swap st 0 n = Some st1" and ok1: "index_ok st1"
    and fr1: "frame st st1"
    and it1: "items (pq st1) = (items (pq st))[0 := items (pq st) ! n, n := items (pq st) ! 0]"
    using pq_Swap_ok [OF ok zl nl] by blast
  have v1: "vals st1 = (vals st)[0 := vals st ! n, n := vals st ! 0]"
    using vals_swap [OF fr1 it1 zl nl] .
  have lt1: "less_fn (pq st1) = lt"
    using fr1 by (simp add: frame_def lt_def)
  have n1: "n \<le> length (items (pq st1))"
    using len by (simp add: it1)
  from heap_down_spec [OF ok1 n1, of 0]
  obtain st2 moved where dn: "heap_down st1 0 n = Some (st2, moved)" and ok2: "index_ok st2"
    and fr2: "frame st1 st2"
    and dr2: "drop n (items (pq st2)) = drop n (items (pq st1))"
    and ord2: "strict_weak_order lt \<and> heap_hole lt (vals st1) n 0 \<longrightarrow>
            (\<forall>k. 0 < k \<and> k < n \<and> k \<noteq> 0 \<longrightarrow> parent_ok lt (vals st2) k)"
    unfolding lt1 by blast
  have fr: "frame st st2" using frame_trans [OF fr1 fr2] .
  have l1: "length (items (pq st1)) = Suc n" using len by (simp add: it1)
  have l2: "length (items (pq st2)) = Suc n"
    using frame_items_length [OF fr] len by simp
  have "last (items (pq st2)) = items (pq st1) ! n"
    using last_from_drop [OF dr2 l1 l2] .
  then have la: "last (items (pq st2)) = h"
    using nl by (simp add: it1 h_def)
  have order: "heap_upto lt (vals st2) n"
    if swo: "strict_weak_order lt" and hp: "heap_upto lt (vals st) (Suc n)"
  proof -
    have "heap_hole lt (vals st1) n 0"
      using hole_after_swap [OF swo hp _ v1] by simp
    with ord2 swo show ?thesis by (simp add: heap_upto_def)
  qed
  from pop_after_frame [OF ok2 fr ne la]
  obtain st4 where p: "pq_Pop st2 = Some (h, st4)" and ok4: "index_ok st4"
    and rm: "removes st h st4"
    and l4: "length (items (pq st4)) = length (items (pq st)) - 1"
    and hu: "heap_upto lt (vals st2) n \<longrightarrow> heap_upto lt (vals st4) n"
    unfolding lt_def n_def by blast
  have "heap_Pop st = do {
        st1 \<leftarrow> pq_Swap st 0 n;
        (st2, _) \<leftarrow> heap_down st1 0 n;
        pq_Pop st2 }"
    using ne by (simp add: heap_Pop_def n_def Let_def)
  also have "\<dots> = Some (h, st4)"
    using sw dn p by simp
  finally show ?thesis
    using ok4 rm l4 order hu len
    by (intro exI [of _ st4]) (simp add: h_def lt_def)
qed

lemma heap_Push_spec:
  assumes ok: "index_ok st" and h: "h < length (mem st)" and nh: "h \<notin> set (items (pq st))"
  shows "\<exists>st'. heap_Push st h = Some st' \<and> index_ok st' \<and> inserts st h st' \<and>
           length (items (pq st')) = Suc (length (items (pq st))) \<and>
           (strict_weak_order (less_fn (pq st)) \<and>
            heap_upto (less_fn (pq st)) (vals st) (length (items (pq st))) \<longrightarrow>
            heap_upto (less_fn (pq st)) (vals st') (Suc (length (items (pq st)))))"
proof -
  define lt where "lt = less_fn (pq st)"
  define n where "n = length (items (pq st))"
  from pq_Push_ok [OF ok h nh]
  obtain st1 where p: "pq_Push st h = Some st1" and ok1: "index_ok st1"
    and it1: "items (pq st1) = items (pq st) @ [h]"
    and l1: "length (mem st1) = length (mem st)"
    and lt1: "less_fn (pq st1) = lt"
    and v1: "\<forall>a. Value (mem st1 ! a) = Value (mem st ! a)"
    and o1: "\<forall>a. a \<noteq> h \<longrightarrow> mem st1 ! a = mem st ! a"
    unfolding lt_def by blast
  have n1: "Suc n \<le> length (items (pq st1))" by (simp add: it1 n_def)
  from heap_up_spec [OF ok1 n1, of n]
  obtain st2 where up: "heap_up st1 n = Some st2" and ok2: "index_ok st2"
    and fr2: "frame st1 st2"
    and ord2: "strict_weak_order lt \<and> heap_hole_up lt (vals st1) (Suc n) n \<longrightarrow>
                    heap_upto lt (vals st2) (Suc n)"
    unfolding lt1 by auto
  have e: "heap_Push st h = Some st2"
    using p up by (simp add: heap_Push_def it1 n_def)
  have ins: "inserts st h st2"
    unfolding inserts_def using nh fr2 it1 l1 lt1 v1 o1
    by (auto simp: frame_def lt_def)
  have vv: "vals st1 = vals st @ [Value (mem st ! h)]"
    using v1 by (simp add: vals_def it1)
  have order: "heap_upto lt (vals st2) (Suc n)"
    if swo: "strict_weak_order lt" and hp: "heap_upto lt (vals st) n"
  proof -
    have "\<And>k. 0 < k \<Longrightarrow> k < n \<Longrightarrow> parent_ok lt (vals st1) k"
    proof -
      fix k assume k: "0 < k" "k < n"
      then have "(k - 1) div 2 < n" by auto
      then have "vals st1 ! k = vals st ! k" "vals st1 ! ((k - 1) div 2) = vals st ! ((k - 1) div 2)"
        using k by (simp_all add: vv nth_append n_def)
      then show "parent_ok lt (vals st1) k"
        using hp k by (simp add: heap_upto_def parent_ok_def)
    qed
    moreover have "\<And>k. 0 < k \<Longrightarrow> k < Suc n \<Longrightarrow> (k - 1) div 2 \<noteq> n"
      by auto
    ultimately have "heap_hole_up lt (vals st1) (Suc n) n"
      unfolding heap_hole_up_def by (metis less_Suc_eq)
    with ord2 swo show ?thesis by simp
  qed
  have "length (items (pq st2)) = Suc n"
    using frame_items_length [OF fr2] by (simp add: it1 n_def)
  then show ?thesis
    using e ok2 ins order
    by (intro exI [of _ st2]) (simp add: lt_def n_def)
qed
section \<open>Priority queue: the public methods\<close>

lemma pq_New_spec:
  "pq_New lessf m = Some \<lparr>mem = m, pq = \<lparr>items = [], less_fn = lessf\<rparr>\<rparr>"
  by (simp add: pq_New_def heap_Init_def)

lemma PushAndReturnItem_spec:
  assumes ok: "index_ok st"
  shows "\<exists>st'. PushAndReturnItem st v = Some (length (mem st), st') \<and> index_ok st' \<and>
           pushes st v st' \<and>
           length (items (pq st')) = Suc (length (items (pq st))) \<and>
           (strict_weak_order (less_fn (pq st)) \<and> pq_heap st \<longrightarrow> pq_heap st')"
proof -
  define h where "h = length (mem st)"
  define st1 where "st1 = st\<lparr>mem := mem st @ [\<lparr>Value = v, index = 0\<rparr>]\<rparr>"
  have bd: "\<And>a. a \<in> set (items (pq st)) \<Longrightarrow> a < h"
    using index_ok_bound [OF ok] by (simp add: h_def)
  have ok1: "index_ok st1"
    using ok unfolding index_ok_def by (auto simp: st1_def nth_append)
  have h1: "h < length (mem st1)" by (simp add: st1_def h_def)
  have nh: "h \<notin> set (items (pq st1))" using bd by (auto simp: st1_def)
  have vv: "vals st1 = vals st"
    using bd by (auto simp: vals_def st1_def nth_append h_def)
  from heap_Push_spec [OF ok1 h1 nh]
  obtain st2 where p: "heap_Push st1 h = Some st2" and ok2: "index_ok st2"
    and ins: "inserts st1 h st2"
    and l2: "length (items (pq st2)) = Suc (length (items (pq st)))"
    and ord: "strict_weak_order (less_fn (pq st)) \<and>
            heap_upto (less_fn (pq st)) (vals st) (length (items (pq st))) \<longrightarrow>
            heap_upto (less_fn (pq st)) (vals st2) (Suc (length (items (pq st))))"
    unfolding vv by (auto simp: st1_def)
  have e: "PushAndReturnItem st v = Some (h, st2)"
    using p by (simp add: PushAndReturnItem_def Let_def h_def st1_def)
  have lt2: "less_fn (pq st2) = less_fn (pq st)"
    using ins by (simp add: inserts_def st1_def)
  have ps: "pushes st v st2"
    unfolding pushes_def using ins
    by (auto simp: inserts_def st1_def h_def nth_append)
  have "pq_heap st2" if "strict_weak_order (less_fn (pq st))" "pq_heap st"
    using that ord ok2 l2 lt2 by (simp add: pq_heap_def)
  then show ?thesis
    using e ok2 ps l2 by (intro exI [of _ st2]) (simp add: h_def)
qed

lemma PushValue_eq:
  "PushValue st v = map_option snd (PushAndReturnItem st v)"
  by (cases "PushAndReturnItem st v") (auto simp: PushValue_def)

lemma PopValue_empty:
  "items (pq st) = [] \<Longrightarrow> PopValue st = Some ((default, False), st)"
  by (simp add: PopValue_def pq_Len_def)

lemma heap_root_least:
  assumes swo: "strict_weak_order lt" and hp: "heap_upto lt xs n"
  shows "k < n \<Longrightarrow> \<not> lt (xs ! k) (xs ! 0)"
proof (induction k rule: less_induct)
  case (less k)
  show ?case
  proof (cases "k = 0")
    case True
    then show ?thesis using swo by (simp add: strict_weak_order_def)
  next
    case False
    then have k0: "0 < k" by simp
    then have "(k - 1) div 2 < k" by auto
    moreover from this less.prems have "(k - 1) div 2 < n" by simp
    ultimately have "\<not> lt (xs ! ((k - 1) div 2)) (xs ! 0)" by (rule less.IH)
    moreover have "\<not> lt (xs ! k) (xs ! ((k - 1) div 2))"
      using hp k0 less.prems by (simp add: heap_upto_def parent_ok_def)
    ultimately show ?thesis using swo_ntrans [OF swo] by blast
  qed
qed

lemma removes_deref:
  "removes st h st' \<Longrightarrow> index_ok st \<Longrightarrow> deref st' h = Some (mem st' ! h)"
  using index_ok_bound [of st h] by (simp add: removes_def deref_def)

lemma PopValue_spec:
  assumes ok: "index_ok st" and ne: "items (pq st) \<noteq> []"
  shows "\<exists>st'. PopValue st = Some ((Value (mem st ! (items (pq st) ! 0)), True), st') \<and>
           index_ok st' \<and> removes st (items (pq st) ! 0) st' \<and>
           length (items (pq st')) = length (items (pq st)) - 1 \<and>
           (strict_weak_order (less_fn (pq st)) \<and> pq_heap st \<longrightarrow>
              pq_heap st' \<and>
              (\<forall>x \<in> set (vals st). \<not> less_fn (pq st) x (Value (mem st ! (items (pq st) ! 0)))))"
proof -
  define h where "h = items (pq st) ! 0"
  from heap_Pop_spec [OF ok ne]
  obtain st' where p: "heap_Pop st = Some (h, st')" and ok': "index_ok st'"
    and rm: "removes st h st'"
    and l': "length (items (pq st')) = length (items (pq st)) - 1"
    and ord: "strict_weak_order (less_fn (pq st)) \<and>
            heap_upto (less_fn (pq st)) (vals st) (length (items (pq st))) \<longrightarrow>
            heap_upto (less_fn (pq st)) (vals st') (length (items (pq st)) - 1)"
    unfolding h_def by blast
  have d: "deref st' h = Some (mem st' ! h)" using removes_deref [OF rm ok] .
  have v: "Value (mem st' ! h) = Value (mem st ! h)" using rm by (simp add: removes_def)
  have e: "PopValue st = Some ((Value (mem st ! h), True), st')"
    using ne p d v by (simp add: PopValue_def pq_Len_def)
  have lt': "less_fn (pq st') = less_fn (pq st)" using rm by (simp add: removes_def)
  have top: "vals st ! 0 = Value (mem st ! h)"
    using ne by (simp add: vals_def h_def)
  have "pq_heap st' \<and> (\<forall>x \<in> set (vals st). \<not> less_fn (pq st) x (Value (mem st ! h)))"
    if swo: "strict_weak_order (less_fn (pq st))" and hp: "pq_heap st"
  proof -
    have hu: "heap_upto (less_fn (pq st)) (vals st) (length (items (pq st)))"
      using hp by (simp add: pq_heap_def)
    have "pq_heap st'" using ord swo hu ok' l' lt' by (simp add: pq_heap_def)
    moreover have "\<forall>x \<in> set (vals st). \<not> less_fn (pq st) x (Value (mem st ! h))"
      using heap_root_least [OF swo hu] top
      by (metis in_set_conv_nth length_vals)
    ultimately show ?thesis by simp
  qed
  then show ?thesis
    using e ok' rm l' by (intro exI [of _ st']) (simp add: h_def)
qed

lemma RemoveItem_reject:
  assumes "a < length (mem st)"
    and "index (mem st ! a) < 0 \<or> int (length (items (pq st))) \<le> index (mem st ! a)"
  shows "RemoveItem st (Some a) = Some ((default, False), st)"
  using assms by (auto simp: RemoveItem_def deref_def pq_Len_def)

lemma RemoveItem_at:
  assumes ok: "index_ok st" and a: "a < length (mem st)"
    and lo: "0 \<le> index (mem st ! a)" and hi: "index (mem st ! a) < int (length (items (pq st)))"
    and h: "h = items (pq st) ! nat (index (mem st ! a))"
  shows "\<exists>st'. RemoveItem st (Some a) = Some ((Value (mem st ! h), True), st') \<and>
           index_ok st' \<and> removes st h st' \<and>
           length (items (pq st')) = length (items (pq st)) - 1 \<and>
           (strict_weak_order (less_fn (pq st)) \<and> pq_heap st \<longrightarrow> pq_heap st')"
proof -
  define i where "i = nat (index (mem st ! a))"
  have il: "i < length (items (pq st))" using lo hi by (simp add: i_def)
  from heap_Remove_spec [OF ok il]
  obtain st' where p: "heap_Remove st i = Some (h, st')" and ok': "index_ok st'"
    and rm: "removes st h st'"
    and l': "length (items (pq st')) = length (items (pq st)) - 1"
    and ord: "strict_weak_order (less_fn (pq st)) \<and>
            heap_upto (less_fn (pq st)) (vals st) (length (items (pq st))) \<longrightarrow>
            heap_upto (less_fn (pq st)) (vals st') (length (items (pq st)) - 1)"
    unfolding h i_def by blast
  have d: "deref st' h = Some (mem st' ! h)" using removes_deref [OF rm ok] .
  have v: "Value (mem st' ! h) = Value (mem st ! h)" using rm by (simp add: removes_def)
  have e: "RemoveItem st (Some a) = Some ((Value (mem st ! h), True), st')"
    using a lo hi p d v by (simp add: RemoveItem_def deref_def pq_Len_def i_def)
  have lt': "less_fn (pq st') = less_fn (pq st)" using rm by (simp add: removes_def)
  have "pq_heap st'" if "strict_weak_order (less_fn (pq st))" "pq_heap st"
    using that ord ok' l' lt' by (simp add: pq_heap_def)
  then show ?thesis
    using e ok' rm l' by (intro exI [of _ st']) simp
qed

lemma RemoveItem_live:
  assumes ok: "index_ok st" and h: "h \<in> set (items (pq st))"
  shows "\<exists>st'. RemoveItem st (Some h) = Some ((Value (mem st ! h), True), st') \<and>
           index_ok st' \<and> removes st h st' \<and>
           length (items (pq st')) = length (items (pq st)) - 1 \<and>
           (strict_weak_order (less_fn (pq st)) \<and> pq_heap st \<longrightarrow> pq_heap st')"
proof -
  from h obtain i where i: "i < length (items (pq st))" "items (pq st) ! i = h"
    by (auto simp: in_set_conv_nth)
  then have ix: "index (mem st ! h) = int i" and hl: "h < length (mem st)"
    using ok by (auto simp: index_ok_def)
  show ?thesis
    using RemoveItem_at [OF ok hl, of h] ix i by simp
qed
lemma removes_set:
  assumes rm: "removes st h st'" and ok: "index_ok st"
  shows "set (items (pq st')) = set (items (pq st)) - {h}"
proof -
  have d: "distinct (items (pq st))" using index_ok_distinct [OF ok] .
  have "mset (items (pq st')) = mset (remove1 h (items (pq st)))"
    using rm by (simp add: removes_def)
  then have "set (items (pq st')) = set (remove1 h (items (pq st)))"
    by (rule mset_eq_setD)
  then show ?thesis using d by simp
qed

lemma pushes_set:
  assumes "pushes st v st'"
  shows "set (items (pq st')) = insert (length (mem st)) (set (items (pq st)))"
proof -
  have "set_mset (mset (items (pq st'))) = set_mset (add_mset (length (mem st)) (mset (items (pq st))))"
    using assms by (simp add: pushes_def)
  then show ?thesis by simp
qed

lemma pq_inv_pushes:
  assumes inv: "pq_inv st R" and ok': "index_ok st'" and ps: "pushes st v st'"
  shows "pq_inv st' R"
  unfolding pq_inv_def
proof (intro conjI ballI)
  show "index_ok st'" by (rule ok')
next
  fix a assume a: "a \<in> R"
  then have al: "a < length (mem st)" and ni: "a \<notin> set (items (pq st))"
    and ix: "index (mem st ! a) = - 1"
    using inv by (auto simp: pq_inv_def)
  show "a < length (mem st')" using al ps by (simp add: pushes_def)
  show "a \<notin> set (items (pq st'))" using pushes_set [OF ps] al ni by auto
  show "index (mem st' ! a) = - 1" using ps al ni ix by (simp add: pushes_def)
qed

lemma pq_inv_removes:
  assumes inv: "pq_inv st R" and ok': "index_ok st'" and rm: "removes st h st'"
  shows "pq_inv st' (R \<union> (set (items (pq st)) - set (items (pq st'))))"
proof -
  have ok: "index_ok st" using inv by (simp add: pq_inv_def)
  have s: "set (items (pq st')) = set (items (pq st)) - {h}"
    using removes_set [OF rm ok] .
  have hin: "h \<in> set (items (pq st))" using rm by (simp add: removes_def)
  have d: "set (items (pq st)) - set (items (pq st')) = {h}" using s hin by auto
  have hl: "h < length (mem st)" using index_ok_bound [OF ok hin] .
  show ?thesis
    unfolding pq_inv_def d
  proof (intro conjI ballI)
    show "index_ok st'" by (rule ok')
  next
    fix a assume a: "a \<in> R \<union> {h}"
    show "a < length (mem st')" using a inv hl rm by (auto simp: pq_inv_def removes_def)
    show "a \<notin> set (items (pq st'))" using a inv s by (auto simp: pq_inv_def)
    show "index (mem st' ! a) = - 1"
    proof (cases "a = h")
      case True
      then show ?thesis using rm by (simp add: removes_def)
    next
      case False
      then have "a \<in> R" using a by simp
      then show ?thesis using inv rm by (auto simp: pq_inv_def removes_def)
    qed
  qed
qed

lemma pq_inv_same: "pq_inv st R \<Longrightarrow> pq_inv st (R \<union> (set (items (pq st)) - set (items (pq st))))"
  by simp

lemma PopValue_total:
  assumes ok: "index_ok st"
  shows "\<exists>r st'. PopValue st = Some (r, st') \<and> index_ok st' \<and>
           (st' = st \<or> (\<exists>h. removes st h st'))"
proof (cases "items (pq st) = []")
  case True
  then show ?thesis using PopValue_empty [OF True] ok by blast
next
  case False
  from PopValue_spec [OF ok False] show ?thesis by blast
qed

lemma RemoveItem_total:
  assumes ok: "index_ok st" and a: "a < length (mem st)"
  shows "\<exists>r st'. RemoveItem st (Some a) = Some (r, st') \<and> index_ok st' \<and>
           (st' = st \<or> (\<exists>h. removes st h st'))"
proof (cases "index (mem st ! a) < 0 \<or> int (length (items (pq st))) \<le> index (mem st ! a)")
  case True
  from RemoveItem_reject [OF a True] ok show ?thesis by blast
next
  case False
  then have "0 \<le> index (mem st ! a)" "index (mem st ! a) < int (length (items (pq st)))"
    by auto
  from RemoveItem_at [OF ok a this refl] show ?thesis by blast
qed

text \<open>
  C7. Index bookkeeping of the priority queue. With \<open>R\<close> the entries removed so far,
  \<open>pq_inv st R\<close> says that every entry of the backing slice has its \<open>index\<close> field
  equal to its position and that every removed entry has the index \<open>-1\<close>. \<open>New\<close>
  establishes it with no removed entry, and PushAndReturnItem, PushValue, PopValue and
  RemoveItem (with any non-nil handle) return without a panic and keep it, the entries that
  left the slice in the call being added to the removed ones.
\<close>

theorem C7_index_bookkeeping:
  "(\<exists>st0. pq_New lessf m = Some st0 \<and> pq_inv st0 {}) \<and>
   (pq_inv st R \<longrightarrow>
      (\<exists>h st'. PushAndReturnItem st v = Some (h, st') \<and> pq_inv st' R) \<and>
      (\<exists>st'. PushValue st v = Some st' \<and> pq_inv st' R) \<and>
      (\<exists>r st'. PopValue st = Some (r, st') \<and>
          pq_inv st' (R \<union> (set (items (pq st)) - set (items (pq st'))))) \<and>
      (\<forall>a < length (mem st). \<exists>r st'. RemoveItem st (Some a) = Some (r, st') \<and>
          pq_inv st' (R \<union> (set (items (pq st)) - set (items (pq st'))))))"
proof (intro conjI impI allI)
  show "\<exists>st0. pq_New lessf m = Some st0 \<and> pq_inv st0 {}"
    by (simp add: pq_New_spec pq_inv_def index_ok_def)
next
  assume inv: "pq_inv st R"
  then have ok: "index_ok st" by (simp add: pq_inv_def)
  from PushAndReturnItem_spec [OF ok, of v]
  obtain st' where p: "PushAndReturnItem st v = Some (length (mem st), st')"
    and ok': "index_ok st'" and ps: "pushes st v st'"
    by blast
  have i': "pq_inv st' R" using pq_inv_pushes [OF inv ok' ps] .
  show "\<exists>h st'. PushAndReturnItem st v = Some (h, st') \<and> pq_inv st' R"
    using p i' by blast
  show "\<exists>st'. PushValue st v = Some st' \<and> pq_inv st' R"
    using p i' by (simp add: PushValue_eq)
  from PopValue_total [OF ok]
  obtain r st2 where pv: "PopValue st = Some (r, st2)" and ok2: "index_ok st2"
    and c: "st2 = st \<or> (\<exists>h. removes st h st2)"
    by blast
  have "pq_inv st2 (R \<union> (set (items (pq st)) - set (items (pq st2))))"
    using c pq_inv_removes [OF inv ok2] pq_inv_same [OF inv] by blast
  then show "\<exists>r st'. PopValue st = Some (r, st') \<and>
      pq_inv st' (R \<union> (set (items (pq st)) - set (items (pq st'))))"
    using pv by blast
next
  fix a
  assume inv: "pq_inv st R" and a: "a < length (mem st)"
  then have ok: "index_ok st" by (simp add: pq_inv_def)
  from RemoveItem_total [OF ok a]
  obtain r st2 where rv: "RemoveItem st (Some a) = Some (r, st2)" and ok2: "index_ok st2"
    and c: "st2 = st \<or> (\<exists>h. removes st h st2)"
    by blast
  have "pq_inv st2 (R \<union> (set (items (pq st)) - set (items (pq st2))))"
    using c pq_inv_removes [OF inv ok2] pq_inv_same [OF inv] by blast
  then show "\<exists>r st'. RemoveItem st (Some a) = Some (r, st') \<and>
      pq_inv st' (R \<union> (set (items (pq st)) - set (items (pq st'))))"
    using rv by blast
qed
theorem C7_index_bookkeeping_witness:
  "pq_inv one_entry_queue {1} \<and>
   (\<exists>h st'. PushAndReturnItem one_entry_queue 9 = Some (h, st') \<and> pq_inv st' {1}) \<and>
   (\<exists>st'. PushValue one_entry_queue 9 = Some st' \<and> pq_inv st' {1}) \<and>
   (\<exists>r st'. PopValue one_entry_queue = Some (r, st') \<and>
       pq_inv st' ({1} \<union> (set (items (pq one_entry_queue)) - set (items (pq st'))))) \<and>
   (\<exists>r st'. RemoveItem one_entry_queue (Some 0) = Some (r, st') \<and>
       pq_inv st' ({1} \<union> (set (items (pq one_entry_queue)) - set (items (pq st')))))"
proof -
  have inv: "pq_inv one_entry_queue {1}"
    by (simp add: pq_inv_def index_ok_def one_entry_queue_def)
  have a: "(0::nat) < length (mem one_entry_queue)"
    by (simp add: one_entry_queue_def)
  show ?thesis
    using C7_index_bookkeeping [of gt "[]" one_entry_queue "{1}" 9] inv a by blast
qed

text \<open>
  C8. A read or a remove on an empty container signals absence and changes nothing:
  PopValue and Peek on a priority queue with \<open>Len() = 0\<close>, and PopFront, PopBack,
  PeekFront and PeekBack on a deque with \<open>IsEmpty()\<close>, return the zero value with
  \<open>found = false\<close>, without a panic, and the container they leave is the one they were
  given, which is empty.
\<close>

theorem C8_empty_container:
  assumes "pq_Len st = 0" and "IsEmpty d"
  shows "PopValue st = Some ((default, False), st) \<and>
         pq_Peek st = Some ((default, False), st) \<and>
         PopFront d = ((default, False), d) \<and>
         PopBack d = ((default, False), d) \<and>
         PeekFront d = ((default, False), d) \<and>
         PeekBack d = ((default, False), d)"
  using assms
  by (simp add: PopValue_def pq_Peek_def PopFront_def PopBack_def PeekFront_def PeekBack_def
      IsEmpty_def)

theorem C8_empty_container_witness:
  "pq_Len empty_queue = 0 \<and> IsEmpty (deque_New :: int Deque) \<and>
   PopValue empty_queue = Some ((0, False), empty_queue) \<and>
   pq_Peek empty_queue = Some ((0, False), empty_queue) \<and>
   PopFront (deque_New :: int Deque) = ((0, False), deque_New) \<and>
   PopBack (deque_New :: int Deque) = ((0, False), deque_New) \<and>
   PeekFront (deque_New :: int Deque) = ((0, False), deque_New) \<and>
   PeekBack (deque_New :: int Deque) = ((0, False), deque_New)"
proof -
  have 1: "pq_Len empty_queue = 0" by (simp add: pq_Len_def empty_queue_def)
  have 2: "IsEmpty (deque_New :: int Deque)" by (simp add: IsEmpty_def deque_New_def)
  show ?thesis
    using C8_empty_container [OF 1 2] 1 2 by (simp add: default_int_def)
qed
section \<open>Priority queue: stale and foreign handles\<close>

lemma tracked_pushes:
  assumes tr: "tracked st hs" and ok': "index_ok st'" and ps: "pushes st v st'"
  shows "tracked st' (hs @ [length (mem st)])"
  unfolding tracked_def
proof (intro conjI allI impI ballI)
  show "index_ok st'" by (rule ok')
next
  fix a assume a: "a < length (mem st')" "a \<notin> set (items (pq st'))"
  then have "a < length (mem st)" "a \<notin> set (items (pq st))"
    using pushes_set [OF ps] ps by (auto simp: pushes_def less_Suc_eq)
  then show "index (mem st' ! a) = - 1"
    using tr ps by (simp add: tracked_def pushes_def)
next
  fix h assume "h \<in> set (hs @ [length (mem st)])"
  then show "h < length (mem st')"
    using tr ps by (auto simp: tracked_def pushes_def)
qed

lemma tracked_less_handles: "tracked st (hs @ [h]) \<Longrightarrow> tracked st hs"
  by (simp add: tracked_def)

lemma tracked_removes:
  assumes tr: "tracked st hs" and ok': "index_ok st'" and rm: "removes st h st'"
  shows "tracked st' hs"
proof -
  have ok: "index_ok st" using tr by (simp add: tracked_def)
  have s: "set (items (pq st')) = set (items (pq st)) - {h}"
    using removes_set [OF rm ok] .
  show ?thesis
    unfolding tracked_def
  proof (intro conjI allI impI ballI)
    show "index_ok st'" by (rule ok')
  next
    fix a assume a: "a < length (mem st')" "a \<notin> set (items (pq st'))"
    show "index (mem st' ! a) = - 1"
    proof (cases "a = h")
      case True
      then show ?thesis using rm by (simp add: removes_def)
    next
      case False
      then have "a \<notin> set (items (pq st))" "a < length (mem st)"
        using a s rm by (auto simp: removes_def)
      then show ?thesis using tr rm by (simp add: tracked_def removes_def)
    qed
  next
    fix x assume "x \<in> set hs"
    then show "x < length (mem st')" using tr rm by (simp add: tracked_def removes_def)
  qed
qed

lemma run_call_tracked:
  assumes tr: "tracked st hs" and r: "run_call c (st, hs) = Some (res, st', hs')"
  shows "tracked st' hs'"
proof -
  have ok: "index_ok st" using tr by (simp add: tracked_def)
  show ?thesis
  proof (cases c)
    case (CallPushValue v)
    from PushAndReturnItem_spec [OF ok, of v]
    obtain s where p: "PushAndReturnItem st v = Some (length (mem st), s)"
      and ok': "index_ok s" and ps: "pushes st v s"
      by blast
    have "st' = s" "hs' = hs" using r p CallPushValue by (simp_all add: PushValue_eq)
    then show ?thesis using tracked_less_handles [OF tracked_pushes [OF tr ok' ps]] by simp
  next
    case (CallPushAndReturnItem v)
    from PushAndReturnItem_spec [OF ok, of v]
    obtain s where p: "PushAndReturnItem st v = Some (length (mem st), s)"
      and ok': "index_ok s" and ps: "pushes st v s"
      by blast
    have "st' = s" "hs' = hs @ [length (mem st)]" using r p CallPushAndReturnItem by simp_all
    then show ?thesis using tracked_pushes [OF tr ok' ps] by simp
  next
    case CallPopValue
    from PopValue_total [OF ok]
    obtain x s where p: "PopValue st = Some (x, s)" and ok': "index_ok s"
      and c: "s = st \<or> (\<exists>h. removes st h s)"
      by blast
    have "st' = s" "hs' = hs" using r p CallPopValue by simp_all
    then show ?thesis using c tr tracked_removes [OF tr ok'] by blast
  next
    case (CallRemoveItem k)
    show ?thesis
    proof (cases "k < length hs")
      case True
      then have "hs ! k < length (mem st)" using tr by (simp add: tracked_def)
      from RemoveItem_total [OF ok this]
      obtain x s where p: "RemoveItem st (Some (hs ! k)) = Some (x, s)" and ok': "index_ok s"
        and c: "s = st \<or> (\<exists>h. removes st h s)"
        by blast
      have "st' = s" "hs' = hs" using r p CallRemoveItem True by simp_all
      then show ?thesis using c tr tracked_removes [OF tr ok'] by blast
    next
      case False
      then show ?thesis using r CallRemoveItem by (simp add: RemoveItem_def)
    qed
  next
    case CallPeek
    then have "st' = st" "hs' = hs"
      using r by (auto simp: pq_Peek_def split: if_splits option.splits Option.bind_splits)
    then show ?thesis using tr by simp
  qed
qed

lemma run_calls_tracked:
  "tracked st hs \<Longrightarrow> run_calls cs (st, hs) = Some (rs, st', hs') \<Longrightarrow> tracked st' hs'"
proof (induction cs arbitrary: st hs rs)
  case Nil
  then show ?case by simp
next
  case (Cons c cs)
  from Cons.prems(2) obtain res s1 h1 rs1
    where c: "run_call c (st, hs) = Some (res, s1, h1)"
      and cs: "run_calls cs (s1, h1) = Some (rs1, st', hs')"
    by (auto split: option.splits)
  from Cons.IH [OF run_call_tracked [OF Cons.prems(1) c] cs] show ?case .
qed

lemma run_new_tracked:
  assumes "run_new lessf cs = Some (rs, st, hs)"
  shows "tracked st hs"
proof -
  have "tracked \<lparr>mem = [], pq = \<lparr>items = [], less_fn = lessf\<rparr>\<rparr> []"
    by (simp add: tracked_def index_ok_def)
  then show ?thesis
    using assms run_calls_tracked by (auto simp: run_new_def pq_New_spec)
qed

text \<open>
  C3, as the code has it. A stale handle is rejected: after any program of calls on a new
  queue, for every handle the caller was given whose entry is no longer in the queue,
  RemoveItem returns the zero value with \<open>found = false\<close> and changes nothing. For any
  other item, RemoveItem looks at nothing but the item's \<open>index\<close> field: it rejects the
  handle in the same way when the index is negative or not below \<open>Len()\<close>.
\<close>

theorem C3_stale_handle_rejected:
  "(run_new lessf cs = Some (rs, st, hs) \<and> h \<in> set hs \<and> h \<notin> set (items (pq st)) \<longrightarrow>
      RemoveItem st (Some h) = Some ((default, False), st)) \<and>
   (a < length (mem st2) \<and> (index (mem st2 ! a) < 0 \<or> pq_Len st2 \<le> index (mem st2 ! a)) \<longrightarrow>
      RemoveItem st2 (Some a) = Some ((default, False), st2))"
proof (intro conjI impI)
  assume r: "run_new lessf cs = Some (rs, st, hs) \<and> h \<in> set hs \<and> h \<notin> set (items (pq st))"
  then have tr: "tracked st hs" using run_new_tracked by blast
  then have hl: "h < length (mem st)" and "index (mem st ! h) = - 1"
    using r by (auto simp: tracked_def)
  then show "RemoveItem st (Some h) = Some ((default, False), st)"
    by (intro RemoveItem_reject) simp_all
next
  assume "a < length (mem st2) \<and> (index (mem st2 ! a) < 0 \<or> pq_Len st2 \<le> index (mem st2 ! a))"
  then show "RemoveItem st2 (Some a) = Some ((default, False), st2)"
    by (intro RemoveItem_reject) (simp_all add: pq_Len_def)
qed

theorem C3_stale_handle_rejected_witness:
  "\<exists>rs st hs. run_new gt [CallPushAndReturnItem 5, CallPopValue] = Some (rs, st, hs) \<and>
      0 \<in> set hs \<and> 0 \<notin> set (items (pq st)) \<and>
      RemoveItem st (Some 0) = Some ((0, False), st) \<and>
      1 < length (mem one_entry_queue) \<and> index (mem one_entry_queue ! 1) < 0 \<and>
      RemoveItem one_entry_queue (Some 1) = Some ((0, False), one_entry_queue)"
proof -
  have "map_option (\<lambda>(rs, st, hs). (items (pq st), hs))
     (run_new gt [CallPushAndReturnItem 5, CallPopValue]) = Some ([], [0])"
    by code_simp
  then obtain rs st hs where r: "run_new gt [CallPushAndReturnItem 5, CallPopValue] = Some (rs, st, hs)"
    and i: "items (pq st) = []" and h: "hs = [0]"
    by auto
  have o: "1 < length (mem one_entry_queue) \<and> index (mem one_entry_queue ! 1) < 0"
    by (simp add: one_entry_queue_def)
  show ?thesis
    using C3_stale_handle_rejected [of gt "[CallPushAndReturnItem 5, CallPopValue]" rs st hs 0
        1 one_entry_queue] r i h o
    by (simp add: default_int_def)
qed

text \<open>
  C3 as stated fails for a foreign handle. After \<^verbatim>\<open>pq.PushValue(7)\<close> the caller
  allocates \<^verbatim>\<open>&Item[int]{Value: 99}\<close>, an item that never belonged to the queue and
  whose \<open>index\<close> is \<open>0\<close>. RemoveItem with that handle returns \<open>(7, true)\<close>: it removes
  the queue's own entry and leaves the queue empty.
\<close>

theorem C3_foreign_handle_counterexample:
  "map_option (\<lambda>(rs, st, hs). (mem st @ [\<lparr>Value = 99, index = 0\<rparr>], items (pq st)))
     (run_new gt [CallPushValue 7]) =
     Some (mem foreign_item_queue, items (pq foreign_item_queue)) \<and>
   map_option (\<lambda>(r, st'). (r, items (pq st'), mem st'))
     (RemoveItem foreign_item_queue (Some 1)) =
     Some ((7, True), [], [\<lparr>Value = 7, index = - 1\<rparr>, \<lparr>Value = 99, index = 0\<rparr>])"
  by code_simp
section \<open>Priority queue: sequences of calls\<close>

lemma vals_mset: "mset (vals st) = image_mset (\<lambda>a. Value (mem st ! a)) (mset (items (pq st)))"
  by (simp add: vals_def)

lemma vals_pushes:
  assumes ok: "index_ok st" and ps: "pushes st v st'"
  shows "mset (vals st') = add_mset v (mset (vals st))"
proof -
  have "\<And>a. a \<in># mset (items (pq st)) \<Longrightarrow> Value (mem st' ! a) = Value (mem st ! a)"
    using index_ok_bound [OF ok] ps by (simp add: pushes_def)
  then have "image_mset (\<lambda>a. Value (mem st' ! a)) (mset (items (pq st))) =
      image_mset (\<lambda>a. Value (mem st ! a)) (mset (items (pq st)))"
    by (intro image_mset_cong) simp
  then show ?thesis
    using ps by (simp add: vals_mset pushes_def)
qed

lemma vals_removes:
  assumes rm: "removes st h st'"
  shows "mset (vals st') = mset (vals st) - {#Value (mem st ! h)#}"
    and "Value (mem st ! h) \<in> set (vals st)"
proof -
  have hin: "h \<in># mset (items (pq st))" using rm by (simp add: removes_def)
  have "mset (vals st') = image_mset (\<lambda>a. Value (mem st ! a)) (mset (items (pq st)) - {#h#})"
    using rm by (simp add: vals_mset removes_def)
  also have "\<dots> = mset (vals st) - {#Value (mem st ! h)#}"
    using hin by (simp add: vals_mset image_mset_Diff)
  finally show "mset (vals st') = mset (vals st) - {#Value (mem st ! h)#}" .
  show "Value (mem st ! h) \<in> set (vals st)"
    using rm by (auto simp: removes_def vals_def)
qed

lemma pop_phase:
  assumes "strict_weak_order (less_fn (pq st))" "pq_heap st" "n = length (items (pq st))"
  shows "\<exists>rs out st'. run_calls (replicate n CallPopValue) (st, hs) = Some (rs, st', hs) \<and>
           map fst rs = map (\<lambda>v. Some (v, True)) out \<and>
           map snd rs = map int (rev [0..<n]) \<and>
           mset out = mset (vals st) \<and>
           sorted_wrt (\<lambda>a b. \<not> less_fn (pq st) b a) out \<and>
           pq_Len st' = 0"
  using assms
proof (induction n arbitrary: st)
  case 0
  then show ?case
    by (intro exI [of _ "[]"] exI [of _ st]) (simp add: pq_Len_def vals_def)
next
  case (Suc n)
  define lt where "lt = less_fn (pq st)"
  have ok: "index_ok st" using Suc.prems(2) by (simp add: pq_heap_def)
  have ne: "items (pq st) \<noteq> []" using Suc.prems(3) by auto
  define v where "v = Value (mem st ! (items (pq st) ! 0))"
  from PopValue_spec [OF ok ne] Suc.prems(1,2)
  obtain st1 where p: "PopValue st = Some ((v, True), st1)"
    and rm: "removes st (items (pq st) ! 0) st1"
    and l1: "length (items (pq st1)) = length (items (pq st)) - 1"
    and h1: "pq_heap st1"
    and least: "\<forall>x \<in> set (vals st). \<not> lt x v"
    unfolding v_def lt_def by blast
  have lt1: "less_fn (pq st1) = lt" using rm by (simp add: removes_def lt_def)
  have n1: "n = length (items (pq st1))" using l1 Suc.prems(3) by simp
  from Suc.IH [OF _ h1 n1] Suc.prems(1)
  obtain rs out st' where r: "run_calls (replicate n CallPopValue) (st1, hs) = Some (rs, st', hs)"
    and f: "map fst rs = map (\<lambda>v. Some (v, True)) out"
    and s: "map snd rs = map int (rev [0..<n])"
    and m: "mset out = mset (vals st1)"
    and so: "sorted_wrt (\<lambda>a b. \<not> lt b a) out"
    and e: "pq_Len st' = 0"
    unfolding lt1 lt_def [symmetric] by blast
  have m1: "mset (vals st1) = mset (vals st) - {#v#}" and vin: "v \<in> set (vals st)"
    using vals_removes [OF rm] by (simp_all add: v_def)
  have sub: "set out \<subseteq> set (vals st)"
    using m m1 by (metis in_diffD mset_eq_setD set_mset_mset subsetI)
  have "run_calls (replicate (Suc n) CallPopValue) (st, hs) =
      Some ((Some (v, True), int n) # rs, st', hs)"
    using p r n1 by (simp add: pq_Len_def)
  moreover have "mset (v # out) = mset (vals st)"
    using m m1 vin by simp
  moreover have "sorted_wrt (\<lambda>a b. \<not> lt b a) (v # out)"
    using so least sub by auto
  ultimately show ?case
    using f s e
    by (intro exI [of _ "(Some (v, True), int n) # rs"] exI [of _ "v # out"] exI [of _ st'])
      (simp add: lt_def)
qed
lemma upt_step: "[Suc a..<Suc (Suc (a + n))] = Suc a # [Suc (Suc a)..<Suc (Suc (a + n))]"
  by (simp del: upt_Suc add: upt_conv_Cons)

lemma run_push_call:
  assumes ok: "index_ok st" and c: "pushed_value c = Some v"
  shows "\<exists>res st' hs'. run_call c (st, hs) = Some (res, st', hs') \<and> index_ok st' \<and>
           pushes st v st' \<and> pq_Len st' = int (Suc (length (items (pq st)))) \<and>
           (strict_weak_order (less_fn (pq st)) \<and> pq_heap st \<longrightarrow> pq_heap st')"
proof -
  from PushAndReturnItem_spec [OF ok, of v]
  obtain s where p: "PushAndReturnItem st v = Some (length (mem st), s)"
    and ok': "index_ok s" and ps: "pushes st v s"
    and l: "length (items (pq s)) = Suc (length (items (pq st)))"
    and hp: "strict_weak_order (less_fn (pq st)) \<and> pq_heap st \<longrightarrow> pq_heap s"
    by blast
  have "\<exists>res hs'. run_call c (st, hs) = Some (res, s, hs')"
    using c p by (cases c) (simp_all add: PushValue_eq)
  then show ?thesis
    using ok' ps l hp by (auto simp: pq_Len_def)
qed

lemma push_phase:
  assumes "index_ok st" "map pushed_value ps = map Some vs"
  shows "\<exists>rs st' hs'. run_calls ps (st, hs) = Some (rs, st', hs') \<and> index_ok st' \<and>
           less_fn (pq st') = less_fn (pq st) \<and>
           mset (vals st') = mset (vals st) + mset vs \<and>
           map snd rs = map int [Suc (length (items (pq st)))..<
                                 Suc (length (items (pq st)) + length vs)] \<and>
           length (items (pq st')) = length (items (pq st)) + length vs \<and>
           (strict_weak_order (less_fn (pq st)) \<and> pq_heap st \<longrightarrow> pq_heap st')"
  using assms
proof (induction ps arbitrary: vs st hs)
  case Nil
  then show ?case by simp
next
  case (Cons c ps)
  from Cons.prems(2) obtain v vs' where vs: "vs = v # vs'" and c: "pushed_value c = Some v"
    and rest: "map pushed_value ps = map Some vs'"
    by (cases vs) auto
  from run_push_call [OF Cons.prems(1) c, of hs]
  obtain res st1 hs1 where r1: "run_call c (st, hs) = Some (res, st1, hs1)"
    and ok1: "index_ok st1" and ps1: "pushes st v st1"
    and len1: "pq_Len st1 = int (Suc (length (items (pq st))))"
    and hp1: "strict_weak_order (less_fn (pq st)) \<and> pq_heap st \<longrightarrow> pq_heap st1"
    by blast
  have lt1: "less_fn (pq st1) = less_fn (pq st)" using ps1 by (simp add: pushes_def)
  have l1: "length (items (pq st1)) = Suc (length (items (pq st)))"
    using len1 by (simp add: pq_Len_def)
  from Cons.IH [OF ok1 rest, of hs1]
  obtain rs st' hs' where r: "run_calls ps (st1, hs1) = Some (rs, st', hs')"
    and ok': "index_ok st'" and lt': "less_fn (pq st') = less_fn (pq st1)"
    and m: "mset (vals st') = mset (vals st1) + mset vs'"
    and s: "map snd rs = map int [Suc (length (items (pq st1)))..<
                                 Suc (length (items (pq st1)) + length vs')]"
    and l': "length (items (pq st')) = length (items (pq st1)) + length vs'"
    and hp': "strict_weak_order (less_fn (pq st1)) \<and> pq_heap st1 \<longrightarrow> pq_heap st'"
    by blast
  have e: "run_calls (c # ps) (st, hs) = Some ((res, pq_Len st1) # rs, st', hs')"
    using r1 r by simp
  have m': "mset (vals st') = mset (vals st) + mset vs"
    using m vals_pushes [OF Cons.prems(1) ps1] by (simp add: vs)
  have s': "map snd ((res, pq_Len st1) # rs) =
      map int [Suc (length (items (pq st)))..<Suc (length (items (pq st)) + length vs)]"
    using s len1 l1 by (simp del: upt_Suc add: vs upt_step)
  show ?case
    using e ok' lt' lt1 m' s' l' l1 hp1 hp'
    by (intro exI [of _ "(res, pq_Len st1) # rs"] exI [of _ st'] exI [of _ hs'])
      (simp add: vs)
qed

lemma push_items_phase:
  assumes "index_ok st"
  shows "\<exists>rs st' hn. run_calls (map CallPushAndReturnItem vs) (st, hs) = Some (rs, st', hs @ hn) \<and>
           index_ok st' \<and> less_fn (pq st') = less_fn (pq st) \<and>
           map fst rs = map (\<lambda>v. Some (v, True)) vs \<and>
           map snd rs = map int [Suc (length (items (pq st)))..<
                                 Suc (length (items (pq st)) + length vs)] \<and>
           length hn = length vs \<and>
           (\<forall>k < length vs. hn ! k < length (mem st') \<and> Value (mem st' ! (hn ! k)) = vs ! k) \<and>
           mset (items (pq st')) = mset (items (pq st)) + mset hn \<and>
           length (mem st) \<le> length (mem st') \<and>
           (\<forall>a < length (mem st). Value (mem st' ! a) = Value (mem st ! a)) \<and>
           (strict_weak_order (less_fn (pq st)) \<and> pq_heap st \<longrightarrow> pq_heap st')"
  using assms
proof (induction vs arbitrary: st hs)
  case Nil
  then show ?case by (intro exI [of _ "[]"] exI [of _ st]) simp
next
  case (Cons v vs)
  define h where "h = length (mem st)"
  from PushAndReturnItem_spec [OF Cons.prems, of v]
  obtain st1 where p: "PushAndReturnItem st v = Some (h, st1)"
    and ok1: "index_ok st1" and ps1: "pushes st v st1"
    and l1: "length (items (pq st1)) = Suc (length (items (pq st)))"
    and hp1: "strict_weak_order (less_fn (pq st)) \<and> pq_heap st \<longrightarrow> pq_heap st1"
    unfolding h_def by blast
  have lt1: "less_fn (pq st1) = less_fn (pq st)" using ps1 by (simp add: pushes_def)
  from Cons.IH [OF ok1, of "hs @ [h]"]
  obtain rs st' hn where r: "run_calls (map CallPushAndReturnItem vs) (st1, hs @ [h]) =
        Some (rs, st', (hs @ [h]) @ hn)"
    and ok': "index_ok st'" and lt': "less_fn (pq st') = less_fn (pq st1)"
    and f: "map fst rs = map (\<lambda>v. Some (v, True)) vs"
    and s: "map snd rs = map int [Suc (length (items (pq st1)))..<
                                 Suc (length (items (pq st1)) + length vs)]"
    and ln: "length hn = length vs"
    and hv: "\<forall>k < length vs. hn ! k < length (mem st') \<and> Value (mem st' ! (hn ! k)) = vs ! k"
    and ms: "mset (items (pq st')) = mset (items (pq st1)) + mset hn"
    and gm: "length (mem st1) \<le> length (mem st')"
    and kv: "\<forall>a < length (mem st1). Value (mem st' ! a) = Value (mem st1 ! a)"
    and hp': "strict_weak_order (less_fn (pq st1)) \<and> pq_heap st1 \<longrightarrow> pq_heap st'"
    by blast
  have lm1: "length (mem st1) = Suc h" and vh: "Value (mem st1 ! h) = v"
    and kv1: "\<forall>a < h. Value (mem st1 ! a) = Value (mem st ! a)"
    and ms1: "mset (items (pq st1)) = add_mset h (mset (items (pq st)))"
    using ps1 by (simp_all add: pushes_def h_def)
  have e: "run_calls (map CallPushAndReturnItem (v # vs)) (st, hs) =
      Some ((Some (v, True), pq_Len st1) # rs, st', hs @ (h # hn))"
    using p r by simp
  have s': "map snd ((Some (v, True), pq_Len st1) # rs) =
      map int [Suc (length (items (pq st)))..<Suc (length (items (pq st)) + length (v # vs))]"
    using s l1 by (simp del: upt_Suc add: upt_step pq_Len_def)
  have hv': "\<forall>k < length (v # vs). (h # hn) ! k < length (mem st') \<and>
      Value (mem st' ! ((h # hn) ! k)) = (v # vs) ! k"
  proof (intro allI impI)
    fix k assume k: "k < length (v # vs)"
    show "(h # hn) ! k < length (mem st') \<and> Value (mem st' ! ((h # hn) ! k)) = (v # vs) ! k"
    proof (cases k)
      case 0
      then show ?thesis using gm lm1 kv vh by simp
    next
      case (Suc j)
      then show ?thesis using hv k by simp
    qed
  qed
  have kv': "\<forall>a < length (mem st). Value (mem st' ! a) = Value (mem st ! a)"
    using kv kv1 lm1 by (simp add: h_def)
  have gm': "length (mem st) \<le> length (mem st')" using gm lm1 by (simp add: h_def)
  have ms': "mset (items (pq st')) = mset (items (pq st)) + mset (h # hn)"
    using ms ms1 by simp
  show ?case
    using e ok' lt' lt1 f s' ln hv' ms' gm' kv' hp1 hp'
    by (intro exI [of _ "(Some (v, True), pq_Len st1) # rs"] exI [of _ st'] exI [of _ "h # hn"])
      simp
qed
lemma run_calls_append:
  "run_calls (xs @ ys) s =
     (case run_calls xs s of None \<Rightarrow> None
      | Some (r1, s1) \<Rightarrow>
          (case run_calls ys s1 of None \<Rightarrow> None | Some (r2, s2) \<Rightarrow> Some (r1 @ r2, s2)))"
  by (induction xs arbitrary: s) (auto split: option.splits)

lemma remove_phase:
  assumes "strict_weak_order (less_fn (pq st))" "pq_heap st" "length hs = length vs"
    and "\<forall>k < length vs. hs ! k < length (mem st) \<and> Value (mem st ! (hs ! k)) = vs ! k"
    and "mset (items (pq st)) = image_mset ((!) hs) M"
    and "mset ks \<subseteq># M" "\<forall>k \<in># M. k < length vs"
  shows "\<exists>rs st'. run_calls (map CallRemoveItem ks) (st, hs) = Some (rs, st', hs) \<and>
           map fst rs = map (\<lambda>k. Some (vs ! k, True)) ks \<and>
           map snd rs = map (\<lambda>j. int (length (items (pq st)) - Suc j)) [0..<length ks] \<and>
           pq_heap st' \<and> less_fn (pq st') = less_fn (pq st) \<and>
           mset (items (pq st')) = image_mset ((!) hs) (M - mset ks) \<and>
           (\<forall>k < length vs. hs ! k < length (mem st') \<and> Value (mem st' ! (hs ! k)) = vs ! k) \<and>
           length (items (pq st')) = length (items (pq st)) - length ks"
  using assms
proof (induction ks arbitrary: st M)
  case Nil
  then show ?case by (intro exI [of _ "[]"] exI [of _ st]) simp
next
  case (Cons k ks)
  note swo = Cons.prems(1) and hp = Cons.prems(2) and lh = Cons.prems(3) and hv = Cons.prems(4)
    and ms = Cons.prems(5) and sub = Cons.prems(6) and mb = Cons.prems(7)
  have ok: "index_ok st" using hp by (simp add: pq_heap_def)
  have kM: "k \<in># M" using sub by (simp add: insert_subset_eq_iff)
  then have kl: "k < length vs" using mb by simp
  define h where "h = hs ! k"
  have "h \<in># mset (items (pq st))" unfolding ms h_def using kM by simp
  then have hin: "h \<in> set (items (pq st))" by simp
  from RemoveItem_live [OF ok hin] swo hp
  obtain st1 where r1: "RemoveItem st (Some h) = Some ((Value (mem st ! h), True), st1)"
    and rm: "removes st h st1"
    and l1: "length (items (pq st1)) = length (items (pq st)) - 1"
    and hp1: "pq_heap st1"
    by blast
  have vk: "Value (mem st ! h) = vs ! k" using hv kl by (simp add: h_def)
  have lt1: "less_fn (pq st1) = less_fn (pq st)" using rm by (simp add: removes_def)
  have c1: "run_call (CallRemoveItem k) (st, hs) = Some (Some (vs ! k, True), st1, hs)"
    using r1 kl lh vk by (simp add: h_def)
  have ms1: "mset (items (pq st1)) = image_mset ((!) hs) (M - {#k#})"
    using rm kM by (simp add: removes_def ms image_mset_Diff h_def)
  have sub1: "mset ks \<subseteq># M - {#k#}"
    using sub by (simp add: insert_subset_eq_iff)
  have mb1: "\<forall>k \<in># M - {#k#}. k < length vs"
    using mb by (meson in_diffD)
  have hv1: "\<forall>k < length vs. hs ! k < length (mem st1) \<and> Value (mem st1 ! (hs ! k)) = vs ! k"
    using hv rm by (simp add: removes_def)
  from Cons.IH [OF _ hp1 lh hv1 ms1 sub1 mb1] swo
  obtain rs st' where r: "run_calls (map CallRemoveItem ks) (st1, hs) = Some (rs, st', hs)"
    and f: "map fst rs = map (\<lambda>k. Some (vs ! k, True)) ks"
    and s: "map snd rs = map (\<lambda>j. int (length (items (pq st1)) - Suc j)) [0..<length ks]"
    and hp': "pq_heap st'" and lt': "less_fn (pq st') = less_fn (pq st1)"
    and ms': "mset (items (pq st')) = image_mset ((!) hs) (M - {#k#} - mset ks)"
    and hv': "\<forall>k < length vs. hs ! k < length (mem st') \<and> Value (mem st' ! (hs ! k)) = vs ! k"
    and l': "length (items (pq st')) = length (items (pq st1)) - length ks"
    unfolding lt1 by blast
  have e: "run_calls (map CallRemoveItem (k # ks)) (st, hs) =
      Some ((Some (vs ! k, True), pq_Len st1) # rs, st', hs)"
    using c1 r by simp
  have s': "map snd ((Some (vs ! k, True), pq_Len st1) # rs) =
      map (\<lambda>j. int (length (items (pq st)) - Suc j)) [0..<length (k # ks)]"
    using s l1 by (simp add: map_upt_Suc pq_Len_def del: upt_Suc)
  have ms'': "mset (items (pq st')) = image_mset ((!) hs) (M - mset (k # ks))"
    using ms' by simp
  show ?case
    using e f s' hp' lt' lt1 ms'' hv' l' l1
    by (intro exI [of _ "(Some (vs ! k, True), pq_Len st1) # rs"] exI [of _ st']) simp
qed

lemma strict_weak_order_gt: "strict_weak_order gt"
  by (auto simp: strict_weak_order_def gt_def)

text \<open>
  C1. Heap order. For a comparator that is a strict weak ordering and a program that
  pushes the values \<open>vs\<close> onto a new queue, each with PushValue or PushAndReturnItem,
  and then calls PopValue \<open>len(vs)\<close> times: no call panics, every PopValue returns
  \<open>found = true\<close>, \<open>Len()\<close> counts up to \<open>len(vs)\<close> and then down to zero (so the queue
  is empty exactly after the last PopValue), the extracted values \<open>out\<close> are a permutation
  of \<open>vs\<close>, and for positions \<open>i < j\<close> of \<open>out\<close>, \<open>less(out[j], out[i])\<close> is false.
\<close>

theorem C1_heap_order:
  assumes "strict_weak_order lessf" and "map pushed_value ps = map Some vs"
  shows "\<exists>rs out st hs.
           run_new lessf (ps @ replicate (length vs) CallPopValue) = Some (rs, st, hs) \<and>
           map fst (drop (length vs) rs) = map (\<lambda>v. Some (v, True)) out \<and>
           map snd rs = map int ([1..<Suc (length vs)] @ rev [0..<length vs]) \<and>
           mset out = mset vs \<and>
           sorted_wrt (\<lambda>a b. \<not> lessf b a) out \<and>
           pq_Len st = 0"
proof -
  define st0 :: "'a pqstate" where "st0 = \<lparr>mem = [], pq = \<lparr>items = [], less_fn = lessf\<rparr>\<rparr>"
  have ok0: "index_ok st0" and hp0: "pq_heap st0" and lt0: "less_fn (pq st0) = lessf"
    and v0: "vals st0 = []" and i0: "items (pq st0) = []"
    by (simp_all add: st0_def index_ok_def pq_heap_def heap_upto_def vals_def)
  from push_phase [OF ok0 assms(2), of "[]"] assms(1)
  obtain rs1 st1 hs1 where r1: "run_calls ps (st0, []) = Some (rs1, st1, hs1)"
    and lt1: "less_fn (pq st1) = lessf"
    and m1: "mset (vals st1) = mset vs"
    and s1: "map snd rs1 = map int [1..<Suc (length vs)]"
    and l1: "length (items (pq st1)) = length vs"
    and hp1: "pq_heap st1"
    unfolding lt0 v0 i0 using hp0 by auto
  have lr1: "length rs1 = length vs"
    using s1 by (metis length_map length_upt diff_Suc_1)
  from pop_phase [OF _ hp1 l1 [symmetric], of hs1] assms(1)
  obtain rs2 out st2 where r2: "run_calls (replicate (length vs) CallPopValue) (st1, hs1) =
        Some (rs2, st2, hs1)"
    and f2: "map fst rs2 = map (\<lambda>v. Some (v, True)) out"
    and s2: "map snd rs2 = map int (rev [0..<length vs])"
    and m2: "mset out = mset (vals st1)"
    and so: "sorted_wrt (\<lambda>a b. \<not> lessf b a) out"
    and e2: "pq_Len st2 = 0"
    unfolding lt1 by blast
  have "run_new lessf (ps @ replicate (length vs) CallPopValue) = Some (rs1 @ rs2, st2, hs1)"
    using r1 r2 by (simp add: run_new_def pq_New_spec run_calls_append st0_def)
  then show ?thesis
    using f2 s1 s2 m1 m2 so e2 lr1
    by (intro exI [of _ "rs1 @ rs2"] exI [of _ out] exI [of _ st2] exI [of _ hs1]) simp
qed

theorem C1_heap_order_witness:
  "strict_weak_order gt \<and>
   map pushed_value [CallPushValue 10, CallPushValue 5, CallPushAndReturnItem 20] =
     map Some [10, 5, 20 :: int] \<and>
   (\<exists>rs out st hs.
      run_new gt ([CallPushValue 10, CallPushValue 5, CallPushAndReturnItem 20] @
                  replicate (length [10, 5, 20 :: int]) CallPopValue) = Some (rs, st, hs) \<and>
      map fst (drop (length [10, 5, 20 :: int]) rs) = map (\<lambda>v. Some (v, True)) out \<and>
      map snd rs = map int ([1..<Suc (length [10, 5, 20 :: int])] @ rev [0..<length [10, 5, 20 :: int]]) \<and>
      mset out = mset [10, 5, 20] \<and>
      sorted_wrt (\<lambda>a b. \<not> gt b a) out \<and>
      pq_Len st = 0) \<and>
   map_option (\<lambda>(rs, st, hs). map fst rs)
     (run_new gt [CallPushValue 10, CallPushValue 5, CallPushValue 20, CallPeek,
                  CallPopValue, CallPopValue, CallPopValue]) =
     Some [None, None, None, Some (20, True), Some (20, True), Some (10, True), Some (5, True)]"
proof -
  have p: "map pushed_value [CallPushValue 10, CallPushValue 5, CallPushAndReturnItem 20] =
     map Some [10, 5, 20 :: int]"
    by simp
  have c: "map_option (\<lambda>(rs, st, hs). map fst rs)
     (run_new gt [CallPushValue 10, CallPushValue 5, CallPushValue 20, CallPeek,
                  CallPopValue, CallPopValue, CallPopValue]) =
     Some [None, None, None, Some (20, True), Some (20, True), Some (10, True), Some (5, True)]"
    by code_simp
  show ?thesis
    using C1_heap_order [OF strict_weak_order_gt p] strict_weak_order_gt p c by blast
qed
lemma mset_indices_sub:
  assumes "distinct ks" "\<forall>k \<in> set ks. k < n"
  shows "mset ks \<subseteq># mset [0..<n]"
proof -
  have "set ks \<subseteq> {0..<n}" using assms(2) by auto
  then have "mset_set (set ks) \<subseteq># mset_set {0..<n}"
    by (intro subset_imp_msubset_mset_set) simp_all
  then show ?thesis
    using assms(1) by (simp add: mset_set_set)
qed

text \<open>
  C2. Handle removal and the size invariant. For a comparator that is a strict weak
  ordering: push the values \<open>vs\<close> onto a new queue with PushAndReturnItem, then call
  RemoveItem on the handles at the distinct positions \<open>ks\<close> of the returned handles, then
  call PopValue until the queue is empty. No call panics; the \<open>k\<close>-th RemoveItem returns
  the value pushed with its handle and \<open>found = true\<close>; the values \<open>out\<close> that PopValue
  returns, each with \<open>found = true\<close>, together with the removed values are exactly
  \<open>vs\<close> as a multiset, and they come out in priority order; and after every call
  \<open>Len()\<close> is the number of insertions so far minus the number of removals and
  extractions so far, ending at zero.
\<close>

theorem C2_handle_removal:
  assumes "strict_weak_order lessf" and "distinct ks" and "\<forall>k \<in> set ks. k < length vs"
  shows "\<exists>rs out st hs.
           run_new lessf (map CallPushAndReturnItem vs @ map CallRemoveItem ks @
                          replicate (length vs - length ks) CallPopValue) = Some (rs, st, hs) \<and>
           map fst rs = map (\<lambda>v. Some (v, True)) vs @ map (\<lambda>k. Some (vs ! k, True)) ks @
                        map (\<lambda>v. Some (v, True)) out \<and>
           map snd rs = map int [1..<Suc (length vs)] @
                        map (\<lambda>j. int (length vs - Suc j)) [0..<length ks] @
                        map int (rev [0..<length vs - length ks]) \<and>
           mset out + mset (map ((!) vs) ks) = mset vs \<and>
           sorted_wrt (\<lambda>a b. \<not> lessf b a) out \<and>
           pq_Len st = 0"
proof -
  define n where "n = length vs"
  define M where "M = mset [0..<n]"
  define st0 :: "'a pqstate" where "st0 = \<lparr>mem = [], pq = \<lparr>items = [], less_fn = lessf\<rparr>\<rparr>"
  have ok0: "index_ok st0" and hp0: "pq_heap st0" and lt0: "less_fn (pq st0) = lessf"
    and i0: "items (pq st0) = []"
    by (simp_all add: st0_def index_ok_def pq_heap_def heap_upto_def vals_def)
  from push_items_phase [OF ok0, of vs "[]"] assms(1)
  obtain rs1 st1 hn where r1: "run_calls (map CallPushAndReturnItem vs) (st0, []) = Some (rs1, st1, hn)"
    and lt1: "less_fn (pq st1) = lessf"
    and f1: "map fst rs1 = map (\<lambda>v. Some (v, True)) vs"
    and s1: "map snd rs1 = map int [1..<Suc n]"
    and ln: "length hn = n"
    and hv1: "\<forall>k < length vs. hn ! k < length (mem st1) \<and> Value (mem st1 ! (hn ! k)) = vs ! k"
    and ms1: "mset (items (pq st1)) = mset hn"
    and hp1: "pq_heap st1"
    unfolding lt0 i0 n_def using hp0 by auto
  have l1: "length (items (pq st1)) = n"
    using ms1 ln by (metis size_mset)
  have "map ((!) hn) [0..<n] = hn" using ln map_nth by blast
  then have ms1': "mset (items (pq st1)) = image_mset ((!) hn) M"
    unfolding ms1 M_def by (metis mset_map)
  have sub: "mset ks \<subseteq># M"
    unfolding M_def using mset_indices_sub [OF assms(2)] assms(3) by (simp add: n_def)
  have mb: "\<forall>k \<in># M. k < length vs" by (simp add: M_def n_def)
  have lk: "length ks \<le> n"
    using size_mset_mono [OF sub] by (simp add: M_def)
  from remove_phase [OF _ hp1 _ hv1 ms1' sub mb] assms(1)
  obtain rs2 st2 where r2: "run_calls (map CallRemoveItem ks) (st1, hn) = Some (rs2, st2, hn)"
    and f2: "map fst rs2 = map (\<lambda>k. Some (vs ! k, True)) ks"
    and s2: "map snd rs2 = map (\<lambda>j. int (n - Suc j)) [0..<length ks]"
    and hp2: "pq_heap st2" and lt2: "less_fn (pq st2) = lessf"
    and ms2: "mset (items (pq st2)) = image_mset ((!) hn) (M - mset ks)"
    and hv2: "\<forall>k < length vs. hn ! k < length (mem st2) \<and> Value (mem st2 ! (hn ! k)) = vs ! k"
    and l2: "length (items (pq st2)) = n - length ks"
    unfolding lt1 l1 using ln by (auto simp: n_def)
  from pop_phase [OF _ hp2 l2 [symmetric], of hn] assms(1)
  obtain rs3 out st3 where r3: "run_calls (replicate (n - length ks) CallPopValue) (st2, hn) =
        Some (rs3, st3, hn)"
    and f3: "map fst rs3 = map (\<lambda>v. Some (v, True)) out"
    and s3: "map snd rs3 = map int (rev [0..<n - length ks])"
    and m3: "mset out = mset (vals st2)"
    and so: "sorted_wrt (\<lambda>a b. \<not> lessf b a) out"
    and e3: "pq_Len st3 = 0"
    unfolding lt2 by blast
  have "mset (vals st2) = image_mset (\<lambda>k. Value (mem st2 ! (hn ! k))) (M - mset ks)"
    by (simp add: vals_mset ms2 multiset.map_comp comp_def)
  also have "\<dots> = image_mset ((!) vs) (M - mset ks)"
  proof (intro image_mset_cong)
    fix k assume "k \<in># M - mset ks"
    then have "k \<in># M" by (meson in_diffD)
    then show "Value (mem st2 ! (hn ! k)) = vs ! k" using hv2 mb by simp
  qed
  also have "\<dots> = image_mset ((!) vs) M - image_mset ((!) vs) (mset ks)"
    using sub by (rule image_mset_Diff)
  finally have mv: "mset (vals st2) = image_mset ((!) vs) M - mset (map ((!) vs) ks)"
    by simp
  have "map ((!) vs) [0..<n] = vs" unfolding n_def by (rule map_nth)
  then have iv: "image_mset ((!) vs) M = mset vs"
    unfolding M_def by (metis mset_map)
  have "mset (map ((!) vs) ks) \<subseteq># mset vs"
    using image_mset_subseteq_mono [OF sub, of "(!) vs"] iv by simp
  then have total: "mset out + mset (map ((!) vs) ks) = mset vs"
    using m3 mv iv by simp
  have "run_new lessf (map CallPushAndReturnItem vs @ map CallRemoveItem ks @
            replicate (n - length ks) CallPopValue) = Some (rs1 @ rs2 @ rs3, st3, hn)"
    using r1 r2 r3 by (simp add: run_new_def pq_New_spec run_calls_append st0_def)
  then show ?thesis
    using f1 f2 f3 s1 s2 s3 total so e3
    by (intro exI [of _ "rs1 @ rs2 @ rs3"] exI [of _ out] exI [of _ st3] exI [of _ hn])
      (simp add: n_def)
qed

theorem C2_handle_removal_witness:
  "strict_weak_order gt \<and> distinct [3 :: nat, 0] \<and>
   (\<exists>rs out st hs.
      run_new gt (map CallPushAndReturnItem [10, 5, 20, 30 :: int] @ map CallRemoveItem [3, 0] @
                  replicate (length [10, 5, 20, 30 :: int] - length [3 :: nat, 0]) CallPopValue) =
        Some (rs, st, hs) \<and>
      map fst rs = map (\<lambda>v. Some (v, True)) [10, 5, 20, 30] @
                   map (\<lambda>k. Some ([10, 5, 20, 30] ! k, True)) [3, 0] @
                   map (\<lambda>v. Some (v, True)) out \<and>
      map snd rs = map int [1..<Suc (length [10, 5, 20, 30 :: int])] @
                   map (\<lambda>j. int (length [10, 5, 20, 30 :: int] - Suc j)) [0..<length [3 :: nat, 0]] @
                   map int (rev [0..<length [10, 5, 20, 30 :: int] - length [3 :: nat, 0]]) \<and>
      mset out + mset (map ((!) [10, 5, 20, 30]) [3, 0]) = mset [10, 5, 20, 30] \<and>
      sorted_wrt (\<lambda>a b. \<not> gt b a) out \<and>
      pq_Len st = 0) \<and>
   map_option (\<lambda>(rs, st, hs). rs)
     (run_new gt (map CallPushAndReturnItem [10, 5, 20, 30] @ map CallRemoveItem [3, 0] @
                  replicate 2 CallPopValue)) =
     Some [(Some (10, True), 1), (Some (5, True), 2), (Some (20, True), 3), (Some (30, True), 4),
           (Some (30, True), 3), (Some (10, True), 2), (Some (20, True), 1), (Some (5, True), 0)]"
proof -
  have d: "distinct [3 :: nat, 0]" by simp
  have b: "\<forall>k \<in> set [3 :: nat, 0]. k < length [10, 5, 20, 30 :: int]" by simp
  have c: "map_option (\<lambda>(rs, st, hs). rs)
     (run_new gt (map CallPushAndReturnItem [10, 5, 20, 30] @ map CallRemoveItem [3, 0] @
                  replicate 2 CallPopValue)) =
     Some [(Some (10, True), 1), (Some (5, True), 2), (Some (20, True), 3), (Some (30, True), 4),
           (Some (30, True), 3), (Some (10, True), 2), (Some (20, True), 1), (Some (5, True), 0)]"
    by code_simp
  show ?thesis
    using C2_handle_removal [OF strict_weak_order_gt d b] strict_weak_order_gt d c by blast
qed
end
